theory Spec2Isabelle
  imports Main "HOL-Library.Word" "HOL-Library.Finite_Map"
begin

section \<open>Strings and buffers\<close>

text \<open>
  A JavaScript string is a sequence of UTF-16 code units; a Node \<open>Buffer\<close> is a sequence of
  bytes. Length limits of the runtime are not modelled.
\<close>

type_synonym byte = "8 word"
type_synonym unit16 = "16 word"
type_synonym jsstring = "unit16 list"
type_synonym buffer = "byte list"

text \<open>An ASCII literal as a JavaScript string.\<close>

definition js :: "string \<Rightarrow> jsstring" where
  "js s = map (\<lambda>c. of_nat (of_char c)) s"

section \<open>PasswordService: the session password cache\<close>

record PasswordAndHint =
  password :: jsstring
  hint :: jsstring

record PasswordCacheEntry = PasswordAndHint +
  timestamp :: int

datatype level = Workspace | Folder | File

text \<open>
  The fields of the class. \<open>timeout\<close> is in minutes; \<open>Date.now()\<close> is passed to every
  operation as the argument \<open>now\<close> (milliseconds). The editor's
  \<open>vscode.workspace.getWorkspaceFolder\<close> is the parameter \<open>folderOf\<close>, giving the
  \<open>fsPath\<close> of the owning workspace folder, if any.
\<close>

record PasswordService =
  cache :: "(jsstring, PasswordCacheEntry) fmap"
  active :: bool
  timeout :: int
  level :: level

definition removeExpiredEntries :: "PasswordService \<Rightarrow> int \<Rightarrow> PasswordService" where
  "removeExpiredEntries s now =
     (if timeout s = 0 then s
      else s\<lparr>cache := fmfilter (\<lambda>key. case fmlookup (cache s) key of
                                        None \<Rightarrow> False
                                      | Some entry \<Rightarrow> \<not> (now - timestamp entry > timeout s * 60 * 1000)) (cache s)\<rparr>)"

definition getCacheKey :: "PasswordService \<Rightarrow> (jsstring \<Rightarrow> jsstring option) \<Rightarrow> jsstring \<Rightarrow> jsstring" where
  "getCacheKey s folderOf filePath =
     (case level s of
        Workspace \<Rightarrow> js ''workspace''
      | Folder \<Rightarrow> (case folderOf filePath of
                     Some fsPath \<Rightarrow> fsPath @ js '':'' @ filePath
                   | None \<Rightarrow> filePath)
      | File \<Rightarrow> filePath)"

definition put :: "PasswordService \<Rightarrow> (jsstring \<Rightarrow> jsstring option) \<Rightarrow> int \<Rightarrow> PasswordAndHint \<Rightarrow> jsstring \<Rightarrow> PasswordService" where
  "put s folderOf now passwordAndHint filePath =
     (if \<not> active s then s
      else s\<lparr>cache := fmupd (getCacheKey s folderOf filePath)
                          \<lparr>password = password passwordAndHint,
                           hint = hint passwordAndHint,
                           timestamp = now\<rparr> (cache s)\<rparr>)"

definition get :: "PasswordService \<Rightarrow> (jsstring \<Rightarrow> jsstring option) \<Rightarrow> int \<Rightarrow> jsstring \<Rightarrow> PasswordAndHint \<times> PasswordService" where
  "get s folderOf now filePath =
     (let key = getCacheKey s folderOf filePath in
      case fmlookup (cache s) key of
        Some entry \<Rightarrow>
          if timeout s > 0 \<and> now - timestamp entry > timeout s * 60 * 1000
          then (\<lparr>password = [], hint = []\<rparr>, s\<lparr>cache := fmdrop key (cache s)\<rparr>)
          else (\<lparr>password = password entry, hint = hint entry\<rparr>, s)
      | None \<Rightarrow> (\<lparr>password = [], hint = []\<rparr>, s))"

definition has :: "PasswordService \<Rightarrow> (jsstring \<Rightarrow> jsstring option) \<Rightarrow> int \<Rightarrow> jsstring \<Rightarrow> bool \<times> PasswordService" where
  "has s folderOf now filePath =
     (let key = getCacheKey s folderOf filePath in
      case fmlookup (cache s) key of
        None \<Rightarrow> (False, s)
      | Some entry \<Rightarrow>
          if timeout s > 0 then (now - timestamp entry \<le> timeout s * 60 * 1000, s)
          else (True, s))"

definition clearForFile :: "PasswordService \<Rightarrow> (jsstring \<Rightarrow> jsstring option) \<Rightarrow> jsstring \<Rightarrow> PasswordService" where
  "clearForFile s folderOf filePath = s\<lparr>cache := fmdrop (getCacheKey s folderOf filePath) (cache s)\<rparr>"

definition size_cache :: "PasswordService \<Rightarrow> nat" where
  "size_cache s = fcard (fmdom (cache s))"

definition clear :: "PasswordService \<Rightarrow> nat \<times> PasswordService" where
  "clear s = (size_cache s, s\<lparr>cache := fmempty\<rparr>)"

definition init :: "PasswordService \<Rightarrow> bool \<Rightarrow> int \<Rightarrow> level \<Rightarrow> PasswordService" where
  "init s a t l =
     (let s' = s\<lparr>active := a, timeout := t, level := l\<rparr>
      in if \<not> a then snd (clear s') else s')"

text \<open>The state of a freshly constructed service.\<close>

definition new_PasswordService :: PasswordService where
  "new_PasswordService = \<lparr>cache = fmempty, active = True, timeout = 30, level = Workspace\<rparr>"

section \<open>Buffer encodings of the runtime\<close>

text \<open>
  The service converts between strings and buffers with the encodings \<open>'utf8'\<close>,
  \<open>'binary'\<close> (Latin-1) and \<open>'base64'\<close>. They belong to the Node runtime; they are written
  out here after its documented behaviour.
\<close>

subsection \<open>UTF-8\<close>

definition is_high :: "unit16 \<Rightarrow> bool" where
  "is_high u = (0xD800 \<le> unat u \<and> unat u \<le> 0xDBFF)"

definition is_low :: "unit16 \<Rightarrow> bool" where
  "is_low u = (0xDC00 \<le> unat u \<and> unat u \<le> 0xDFFF)"

definition is_surrogate :: "unit16 \<Rightarrow> bool" where
  "is_surrogate u = (0xD800 \<le> unat u \<and> unat u \<le> 0xDFFF)"

text \<open>
  The code points of a string. A surrogate pair is one code point; a surrogate that is not
  part of a pair is encoded as U+FFFD, as Node does when it writes a string as UTF-8.
\<close>

fun code_points :: "jsstring \<Rightarrow> nat list" where
  "code_points [] = []"
| "code_points [u] = [if is_surrogate u then 0xFFFD else unat u]"
| "code_points (u # v # r) =
     (if is_high u \<and> is_low v
      then (0x10000 + (unat u - 0xD800) * 0x400 + (unat v - 0xDC00)) # code_points r
      else (if is_surrogate u then 0xFFFD else unat u) # code_points (v # r))"

definition utf8_of_cp :: "nat \<Rightarrow> buffer" where
  "utf8_of_cp n =
     (if n < 0x80 then [of_nat n]
      else if n < 0x800 then [of_nat (0xC0 + n div 64), of_nat (0x80 + n mod 64)]
      else if n < 0x10000 then
        [of_nat (0xE0 + n div 4096), of_nat (0x80 + (n div 64) mod 64), of_nat (0x80 + n mod 64)]
      else
        [of_nat (0xF0 + n div 262144), of_nat (0x80 + (n div 4096) mod 64),
         of_nat (0x80 + (n div 64) mod 64), of_nat (0x80 + n mod 64)])"

definition utf8_encode :: "jsstring \<Rightarrow> buffer" where
  "utf8_encode s = concat (map utf8_of_cp (code_points s))"

definition utf16_of_cp :: "nat \<Rightarrow> jsstring" where
  "utf16_of_cp n =
     (if n < 0x10000 then [of_nat n]
      else [of_nat (0xD800 + (n - 0x10000) div 0x400), of_nat (0xDC00 + (n - 0x10000) mod 0x400)])"

definition is_cont :: "byte \<Rightarrow> bool" where
  "is_cont c = (0x80 \<le> unat c \<and> unat c \<le> 0xBF)"

text \<open>The admissible range of the second byte after a three- or four-byte lead byte.\<close>

definition second_ok :: "nat \<Rightarrow> byte \<Rightarrow> bool" where
  "second_ok lead c =
     ((if lead = 0xE0 then 0xA0 else if lead = 0xF0 then 0x90 else 0x80) \<le> unat c \<and>
      unat c \<le> (if lead = 0xED then 0x9F else if lead = 0xF4 then 0x8F else 0xBF))"

text \<open>
  Decoding to code points: a byte sequence that is not well-formed UTF-8 yields U+FFFD for
  each maximal ill-formed part, and decoding resumes at the byte that broke the sequence.
\<close>

fun utf8_cps :: "buffer \<Rightarrow> nat list" where
  "utf8_cps [] = []"
| "utf8_cps (b # bs) =
     (let n = unat b in
      if n < 0x80 then n # utf8_cps bs
      else if 0xC2 \<le> n \<and> n \<le> 0xDF then
        (case bs of
           [] \<Rightarrow> [0xFFFD]
         | c # r \<Rightarrow>
             if is_cont c then ((n - 0xC0) * 64 + (unat c - 0x80)) # utf8_cps r
             else 0xFFFD # utf8_cps bs)
      else if 0xE0 \<le> n \<and> n \<le> 0xEF then
        (case bs of
           [] \<Rightarrow> [0xFFFD]
         | c1 # r1 \<Rightarrow>
             if second_ok n c1 then
               (case r1 of
                  [] \<Rightarrow> [0xFFFD]
                | c2 # r2 \<Rightarrow>
                    if is_cont c2
                    then ((n - 0xE0) * 4096 + (unat c1 - 0x80) * 64 + (unat c2 - 0x80)) # utf8_cps r2
                    else 0xFFFD # utf8_cps r1)
             else 0xFFFD # utf8_cps bs)
      else if 0xF0 \<le> n \<and> n \<le> 0xF4 then
        (case bs of
           [] \<Rightarrow> [0xFFFD]
         | c1 # r1 \<Rightarrow>
             if second_ok n c1 then
               (case r1 of
                  [] \<Rightarrow> [0xFFFD]
                | c2 # r2 \<Rightarrow>
                    if is_cont c2 then
                      (case r2 of
                         [] \<Rightarrow> [0xFFFD]
                       | c3 # r3 \<Rightarrow>
                           if is_cont c3
                           then ((n - 0xF0) * 262144 + (unat c1 - 0x80) * 4096
                                 + (unat c2 - 0x80) * 64 + (unat c3 - 0x80)) # utf8_cps r3
                           else 0xFFFD # utf8_cps r2)
                    else 0xFFFD # utf8_cps r1)
             else 0xFFFD # utf8_cps bs)
      else 0xFFFD # utf8_cps bs)"

definition utf8_decode :: "buffer \<Rightarrow> jsstring" where
  "utf8_decode bs = concat (map utf16_of_cp (utf8_cps bs))"

text \<open>
  Well-formed strings (no unpaired surrogate), and the well-formed copy of a string, in which
  each unpaired surrogate is replaced by U+FFFD (JavaScript's \<open>toWellFormed\<close>).
\<close>

fun isWellFormed :: "jsstring \<Rightarrow> bool" where
  "isWellFormed [] = True"
| "isWellFormed [u] = (\<not> is_surrogate u)"
| "isWellFormed (u # v # r) =
     (if is_high u \<and> is_low v then isWellFormed r
      else \<not> is_surrogate u \<and> isWellFormed (v # r))"

fun toWellFormed :: "jsstring \<Rightarrow> jsstring" where
  "toWellFormed [] = []"
| "toWellFormed [u] = [if is_surrogate u then 0xFFFD else u]"
| "toWellFormed (u # v # r) =
     (if is_high u \<and> is_low v then u # v # toWellFormed r
      else (if is_surrogate u then 0xFFFD else u) # toWellFormed (v # r))"

subsection \<open>Latin-1 (\<open>'binary'\<close>)\<close>

text \<open>A byte becomes the code unit of the same value; a code unit is cut to its low byte.\<close>

definition binary_decode :: "buffer \<Rightarrow> jsstring" where
  "binary_decode bs = map ucast bs"

definition binary_encode :: "jsstring \<Rightarrow> buffer" where
  "binary_encode s = map ucast s"

subsection \<open>Base64\<close>

definition b64char :: "nat \<Rightarrow> unit16" where
  "b64char k =
     of_nat (if k < 26 then 65 + k
             else if k < 52 then 71 + k
             else if k < 62 then k - 4
             else if k = 62 then 43
             else 47)"

fun base64_encode :: "buffer \<Rightarrow> jsstring" where
  "base64_encode [] = []"
| "base64_encode [a] =
     (let n = unat a in [b64char (n div 4), b64char ((n mod 4) * 16), 0x3D, 0x3D])"
| "base64_encode [a, b] =
     (let n = unat a * 256 + unat b
      in [b64char (n div 1024), b64char ((n div 16) mod 64), b64char ((n mod 16) * 4), 0x3D])"
| "base64_encode (a # b # c # r) =
     (let n = unat a * 65536 + unat b * 256 + unat c
      in [b64char (n div 262144), b64char ((n div 4096) mod 64),
          b64char ((n div 64) mod 64), b64char (n mod 64)] @ base64_encode r)"

text \<open>
  Decoding is lenient, as \<open>Buffer.from(s, 'base64')\<close> is: the decoder looks at the low byte
  of each code unit only; a character outside the alphabet is skipped, the URL-safe
  characters \<open>-\<close> and \<open>_\<close> are accepted, and decoding stops at the first \<open>=\<close>.
\<close>

definition low_byte :: "unit16 \<Rightarrow> nat" where
  "low_byte u = unat u mod 256"

definition unbase64 :: "unit16 \<Rightarrow> nat option" where
  "unbase64 u =
     (let c = low_byte u in
      if 65 \<le> c \<and> c \<le> 90 then Some (c - 65)
      else if 97 \<le> c \<and> c \<le> 122 then Some (c - 71)
      else if 48 \<le> c \<and> c \<le> 57 then Some (c + 4)
      else if c = 43 \<or> c = 45 then Some 62
      else if c = 47 \<or> c = 95 then Some 63
      else None)"

definition sextets :: "jsstring \<Rightarrow> nat list" where
  "sextets s = List.map_filter unbase64 (takeWhile (\<lambda>u. low_byte u \<noteq> 61) s)"

fun bytes_of_sextets :: "nat list \<Rightarrow> buffer" where
  "bytes_of_sextets [] = []"
| "bytes_of_sextets [a] = []"
| "bytes_of_sextets [a, b] = [of_nat ((a * 64 + b) div 16)]"
| "bytes_of_sextets [a, b, c] =
     (let n = a * 4096 + b * 64 + c in [of_nat (n div 1024), of_nat ((n div 4) mod 256)])"
| "bytes_of_sextets (a # b # c # d # r) =
     (let n = a * 262144 + b * 4096 + c * 64 + d
      in [of_nat (n div 65536), of_nat ((n div 256) mod 256), of_nat (n mod 256)]
         @ bytes_of_sextets r)"

definition base64_decode :: "jsstring \<Rightarrow> buffer" where
  "base64_decode s = bytes_of_sextets (sextets s)"

section \<open>The crypto library\<close>

text \<open>
  The service calls Node's \<open>crypto\<close> module. Its primitives are a parameter of the model:
  \<^item> \<open>pbkdf2Sync password salt iterations keylen digest\<close>, on the bytes of the password
    (Node passes a string password as its UTF-8 bytes);
  \<^item> \<open>createCipheriv algorithm key iv plaintext\<close> stands for creating the cipher, feeding it
    the plaintext and reading the ciphertext and the authentication tag; \<open>None\<close> when the
    library throws;
  \<^item> \<open>createDecipheriv algorithm key iv authTag ciphertext\<close> stands for creating the
    decipher, setting the tag, and decrypting; \<open>None\<close> when the library throws, which includes
    a failed tag verification.
\<close>

record crypto =
  pbkdf2Sync :: "buffer \<Rightarrow> buffer \<Rightarrow> nat \<Rightarrow> nat \<Rightarrow> string \<Rightarrow> buffer"
  createCipheriv :: "string \<Rightarrow> buffer \<Rightarrow> buffer \<Rightarrow> buffer \<Rightarrow> (buffer \<times> buffer) option"
  createDecipheriv :: "string \<Rightarrow> buffer \<Rightarrow> buffer \<Rightarrow> buffer \<Rightarrow> buffer \<Rightarrow> buffer option"

text \<open>
  What the service does to the outside: it draws random bytes and it calls the library. The
  random source is an infinite tape of bytes; every call of the library is logged.
\<close>

datatype crypto_call = RandomBytes nat | Pbkdf2Sync | CreateCipheriv | CreateDecipheriv

record world =
  entropy :: "nat \<Rightarrow> byte"
  calls :: "crypto_call list"

definition randomBytes :: "nat \<Rightarrow> world \<Rightarrow> buffer \<times> world" where
  "randomBytes n w =
     (map (entropy w) [0..<n],
      w\<lparr>entropy := (\<lambda>i. entropy w (i + n)), calls := calls w @ [RandomBytes n]\<rparr>)"

section \<open>EncryptionService\<close>

record EncryptionResult =
  ciphertext :: jsstring
  salt :: jsstring
  iv :: jsstring
  authTag :: jsstring

record EncryptedFileData = EncryptionResult +
  version :: jsstring
  hint_opt :: "jsstring option"

definition ALGORITHM :: string where "ALGORITHM = ''aes-256-gcm''"
definition KEY_LENGTH :: nat where "KEY_LENGTH = 32"
definition IV_LENGTH :: nat where "IV_LENGTH = 16"
definition SALT_LENGTH :: nat where "SALT_LENGTH = 16"
definition AUTH_TAG_LENGTH :: nat where "AUTH_TAG_LENGTH = 16"
definition ITERATIONS :: nat where "ITERATIONS = 210000"

definition deriveKey :: "crypto \<Rightarrow> jsstring \<Rightarrow> buffer \<Rightarrow> world \<Rightarrow> buffer \<times> world" where
  "deriveKey lib pw salt' w =
     (pbkdf2Sync lib (utf8_encode pw) salt' ITERATIONS KEY_LENGTH ''sha512'',
      w\<lparr>calls := calls w @ [Pbkdf2Sync]\<rparr>)"

text \<open>
  \<open>encryptToBase64\<close> has no \<open>try\<close>: an exception of the library leaves the function, which
  is the result \<open>None\<close>.
\<close>

definition encryptToBase64 :: "crypto \<Rightarrow> jsstring \<Rightarrow> jsstring \<Rightarrow> world \<Rightarrow> EncryptionResult option \<times> world" where
  "encryptToBase64 lib plaintext pw w =
     (let (salt', w1) = randomBytes SALT_LENGTH w;
          (iv', w2) = randomBytes IV_LENGTH w1;
          (key, w3) = deriveKey lib pw salt' w2;
          w4 = w3\<lparr>calls := calls w3 @ [CreateCipheriv]\<rparr>
      in case createCipheriv lib ALGORITHM key iv' (utf8_encode plaintext) of
           None \<Rightarrow> (None, w4)
         | Some (encrypted, authTag') \<Rightarrow>
             (let ciphertext' = binary_decode encrypted
              in (Some \<lparr>ciphertext = base64_encode (binary_encode ciphertext'),
                        salt = base64_encode salt',
                        iv = base64_encode iv',
                        authTag = base64_encode authTag'\<rparr>, w4)))"

definition decryptFromBase64 :: "crypto \<Rightarrow> jsstring \<Rightarrow> jsstring \<Rightarrow> jsstring \<Rightarrow> jsstring \<Rightarrow> jsstring \<Rightarrow> world \<Rightarrow> jsstring option \<times> world" where
  "decryptFromBase64 lib base64Ciphertext pw base64Salt base64Iv base64AuthTag w =
     (let ciphertext' = base64_decode base64Ciphertext;
          salt' = base64_decode base64Salt;
          iv' = base64_decode base64Iv;
          authTag' = base64_decode base64AuthTag;
          (key, w1) = deriveKey lib pw salt' w;
          w2 = w1\<lparr>calls := calls w1 @ [CreateDecipheriv]\<rparr>
      in case createDecipheriv lib ALGORITHM key iv' authTag' ciphertext' of
           None \<Rightarrow> (None, w2)
         | Some plaintext \<Rightarrow> (Some (utf8_decode plaintext), w2))"

definition encryptFileContent :: "crypto \<Rightarrow> jsstring \<Rightarrow> jsstring \<Rightarrow> jsstring option \<Rightarrow> world \<Rightarrow> EncryptedFileData option \<times> world" where
  "encryptFileContent lib content pw hint' w =
     (case encryptToBase64 lib content pw w of
        (None, w') \<Rightarrow> (None, w')
      | (Some result, w') \<Rightarrow>
          (Some \<lparr>ciphertext = ciphertext result, salt = salt result, iv = iv result,
                 authTag = authTag result, version = js ''1.0'', hint_opt = hint'\<rparr>, w'))"

definition decryptFileData :: "crypto \<Rightarrow> EncryptedFileData \<Rightarrow> jsstring \<Rightarrow> world \<Rightarrow> jsstring option \<times> world" where
  "decryptFileData lib fileData pw w =
     decryptFromBase64 lib (ciphertext fileData) pw (salt fileData) (iv fileData) (authTag fileData) w"

subsection \<open>In-place markers\<close>

text \<open>The marker glyph U+1F510 is the surrogate pair D83D DD10.\<close>

definition GLYPH :: jsstring where
  "GLYPH = [0xD83D, 0xDD10]"

text \<open>
  \<open>encryptInPlace\<close>: the hint is used when it is given and not the empty string (the
  source tests its truthiness).
\<close>

definition encryptInPlace :: "crypto \<Rightarrow> jsstring \<Rightarrow> jsstring \<Rightarrow> jsstring option \<Rightarrow> bool \<Rightarrow> world \<Rightarrow> jsstring option \<times> world" where
  "encryptInPlace lib text' pw hint' showMarker w =
     (case encryptToBase64 lib text' pw w of
        (None, w') \<Rightarrow> (None, w')
      | (Some result, w') \<Rightarrow>
          (let salt' = base64_decode (salt result);
               iv' = base64_decode (iv result);
               authTag' = base64_decode (authTag result);
               ciphertext' = base64_decode (ciphertext result);
               combined = salt' @ iv' @ authTag' @ ciphertext';
               combinedBase64 = base64_encode combined;
               data = (case hint' of
                         None \<Rightarrow> combinedBase64
                       | Some h \<Rightarrow> if h \<noteq> [] then h @ js '':'' @ combinedBase64 else combinedBase64);
               prefix = (if showMarker then GLYPH else js ''%%'' @ GLYPH);
               suffix = (if showMarker then GLYPH else GLYPH @ js ''%%'')
           in (Some (prefix @ data @ suffix), w')))"

text \<open>
  The four regular expressions have no flag, so they match code unit by code unit. Each is a
  sequence of literals and capturing groups \<open>(C+)\<close> of a character class \<open>C\<close>. A group is
  greedy: it takes the longest run first and gives characters back one at a time.
  \<open>match_at\<close> matches at the start of the input and returns the captured groups
  (\<open>match[1]\<close>, \<open>match[2]\<close>); \<open>exec\<close> tries every start position from the left.
\<close>

datatype atom = Lit jsstring | Group "unit16 \<Rightarrow> bool"

fun first_some :: "(nat \<Rightarrow> 'a option) \<Rightarrow> nat \<Rightarrow> 'a option" where
  "first_some f 0 = None"
| "first_some f (Suc n) = (case f (Suc n) of Some x \<Rightarrow> Some x | None \<Rightarrow> first_some f n)"

primrec match_at :: "atom list \<Rightarrow> jsstring \<Rightarrow> jsstring list option" where
  "match_at [] s = Some []"
| "match_at (a # r) s =
     (case a of
        Lit l \<Rightarrow> if take (length l) s = l then match_at r (drop (length l) s) else None
      | Group C \<Rightarrow>
          first_some (\<lambda>n. map_option ((#) (take n s)) (match_at r (drop n s)))
                     (length (takeWhile C s)))"

fun exec :: "atom list \<Rightarrow> jsstring \<Rightarrow> jsstring list option" where
  "exec p [] = match_at p []"
| "exec p (u # s) = (case match_at p (u # s) of Some m \<Rightarrow> Some m | None \<Rightarrow> exec p s)"

text \<open>The classes \<open>[^:\<dots>]\<close> (neither the colon nor a code unit of the glyph) and \<open>[A-Za-z0-9+/=]\<close>.\<close>

definition hint_class :: "unit16 \<Rightarrow> bool" where
  "hint_class u = (u \<noteq> 0x3A \<and> u \<noteq> 0xD83D \<and> u \<noteq> 0xDD10)"

definition base64_class :: "unit16 \<Rightarrow> bool" where
  "base64_class u =
     (let c = unat u in
      (65 \<le> c \<and> c \<le> 90) \<or> (97 \<le> c \<and> c \<le> 122) \<or> (48 \<le> c \<and> c \<le> 57)
      \<or> c = 43 \<or> c = 47 \<or> c = 61)"

definition with_hint :: "atom list" where
  "with_hint = [Lit GLYPH, Group hint_class, Lit (js '':''), Group base64_class, Lit GLYPH]"

definition without_hint :: "atom list" where
  "without_hint = [Lit GLYPH, Group base64_class, Lit GLYPH]"

definition hidden_with_hint :: "atom list" where
  "hidden_with_hint =
     [Lit (js ''%%'' @ GLYPH), Group hint_class, Lit (js '':''), Group base64_class,
      Lit (GLYPH @ js ''%%'')]"

definition hidden_without_hint :: "atom list" where
  "hidden_without_hint = [Lit (js ''%%'' @ GLYPH), Group base64_class, Lit (GLYPH @ js ''%%'')]"

definition patterns :: "atom list list" where
  "patterns = [with_hint, without_hint, hidden_with_hint, hidden_without_hint]"

record ParsedInPlace =
  markerHint :: "jsstring option"
  combinedData :: jsstring

text \<open>The loop over the patterns: the first pattern with a match anywhere decides.\<close>

fun parse_loop :: "atom list list \<Rightarrow> jsstring \<Rightarrow> ParsedInPlace option" where
  "parse_loop [] text' = None"
| "parse_loop (pattern # rest) text' =
     (case exec pattern text' of
        Some [h, d] \<Rightarrow> Some \<lparr>markerHint = Some h, combinedData = d\<rparr>
      | Some [d] \<Rightarrow> Some \<lparr>markerHint = None, combinedData = d\<rparr>
      | _ \<Rightarrow> parse_loop rest text')"

definition parseInPlaceEncrypted :: "jsstring \<Rightarrow> ParsedInPlace option" where
  "parseInPlaceEncrypted text' = parse_loop patterns text'"

definition subarray :: "buffer \<Rightarrow> nat \<Rightarrow> nat \<Rightarrow> buffer" where
  "subarray b start end' = take (end' - start) (drop start b)"

definition decryptInPlace :: "crypto \<Rightarrow> jsstring \<Rightarrow> jsstring \<Rightarrow> world \<Rightarrow> jsstring option \<times> world" where
  "decryptInPlace lib encryptedText pw w =
     (case parseInPlaceEncrypted encryptedText of
        None \<Rightarrow> (None, w)
      | Some parsed \<Rightarrow>
          (let combined = base64_decode (combinedData parsed) in
           if length combined < SALT_LENGTH + IV_LENGTH + AUTH_TAG_LENGTH then (None, w)
           else
             (let salt' = subarray combined 0 SALT_LENGTH;
                  iv' = subarray combined SALT_LENGTH (SALT_LENGTH + IV_LENGTH);
                  authTag' = subarray combined (SALT_LENGTH + IV_LENGTH)
                               (SALT_LENGTH + IV_LENGTH + AUTH_TAG_LENGTH);
                  actualCiphertext = drop (SALT_LENGTH + IV_LENGTH + AUTH_TAG_LENGTH) combined
              in decryptFromBase64 lib (base64_encode actualCiphertext) pw
                   (base64_encode salt') (base64_encode iv') (base64_encode authTag') w)))"

subsection \<open>An instance of the library interface\<close>

text \<open>
  A small stand-in for the library (it is not AES): the key is the password bytes followed by
  the salt, cut or padded to the requested length; encryption adds a key- and iv-dependent
  byte to each plaintext byte, and the tag is the first half of the key. It shows that the
  assumptions made about the library below can be met, and runs the model on inputs.
\<close>

definition sample_mask :: "buffer \<Rightarrow> buffer \<Rightarrow> byte" where
  "sample_mask key iv' = sum_list key + sum_list iv'"

definition sample_crypto :: crypto where
  "sample_crypto =
     \<lparr>pbkdf2Sync = (\<lambda>pw salt' iterations keylen digest. take keylen (pw @ salt' @ replicate keylen 0)),
      createCipheriv = (\<lambda>alg key iv' plaintext.
         if alg = ''aes-256-gcm'' \<and> length key = 32 \<and> iv' \<noteq> []
         then Some (map (\<lambda>b. b + sample_mask key iv') plaintext, take 16 key)
         else None),
      createDecipheriv = (\<lambda>alg key iv' authTag' ciphertext'.
         if alg = ''aes-256-gcm'' \<and> length key = 32 \<and> iv' \<noteq> [] \<and> authTag' = take 16 key
         then Some (map (\<lambda>b. b - sample_mask key iv') ciphertext')
         else None)\<rparr>"

definition sample_world :: world where
  "sample_world = \<lparr>entropy = (\<lambda>i. of_nat (7 * i + 3)), calls = []\<rparr>"

section \<open>Notions used in the statements\<close>

text \<open>Unicode scalar values: the code points that are not surrogates.\<close>

definition scalar :: "nat \<Rightarrow> bool" where
  "scalar n = (n < 0x110000 \<and> \<not> (0xD800 \<le> n \<and> n \<le> 0xDFFF))"

text \<open>
  A cache holding one entry stored at time 0 under the workspace key, with a timeout of one
  minute, and a workspace without folders.
\<close>

definition sample_cache :: PasswordService where
  "sample_cache =
     new_PasswordService\<lparr>cache := fmupd (js ''workspace'')
                                   \<lparr>password = js ''pw'', hint = js ''h'', timestamp = 0\<rparr> fmempty,
                         timeout := 1\<rparr>"

definition no_folder :: "jsstring \<Rightarrow> jsstring option" where
  "no_folder filePath = None"

text \<open>The text spelled by a pattern with given captured groups.\<close>

fun spell :: "atom list \<Rightarrow> jsstring list \<Rightarrow> jsstring option" where
  "spell [] [] = Some []"
| "spell (Lit l # r) caps = map_option ((@) l) (spell r caps)"
| "spell (Group C # r) (c # caps) =
     (if c \<noteq> [] \<and> list_all C c then map_option ((@) c) (spell r caps) else None)"
| "spell _ _ = None"

text \<open>
  The values an encryption started in world \<open>w\<close> works with: the salt and the iv it draws, the
  key it derives for a password, and the world it leaves behind.
\<close>

definition drawn_salt :: "world \<Rightarrow> buffer" where
  "drawn_salt w = map (entropy w) [0..<16]"

definition drawn_iv :: "world \<Rightarrow> buffer" where
  "drawn_iv w = map (entropy w) [16..<32]"

definition derived_key :: "crypto \<Rightarrow> jsstring \<Rightarrow> buffer \<Rightarrow> buffer" where
  "derived_key lib pw salt' = pbkdf2Sync lib (utf8_encode pw) salt' 210000 32 ''sha512''"

definition after_encrypt :: "world \<Rightarrow> world" where
  "after_encrypt w =
     w\<lparr>entropy := (\<lambda>i. entropy w (i + 32)),
       calls := calls w @ [RandomBytes 16, RandomBytes 16, Pbkdf2Sync, CreateCipheriv]\<rparr>"

definition after_decrypt :: "world \<Rightarrow> world" where
  "after_decrypt w = w\<lparr>calls := calls w @ [Pbkdf2Sync, CreateDecipheriv]\<rparr>"

text \<open>
  What the proofs of the round trips assume of the library: key derivation returns as many
  bytes as asked for, and AES-256-GCM, given a 32-byte key and a 16-byte iv, encrypts,
  returns a 16-byte tag, and decrypts its own output under the same key, iv and tag.
\<close>

definition library_sound :: "crypto \<Rightarrow> bool" where
  "library_sound lib =
     ((\<forall>pw salt' iterations keylen digest.
          length (pbkdf2Sync lib pw salt' iterations keylen digest) = keylen) \<and>
      (\<forall>key iv' plaintext. length key = 32 \<and> length iv' = 16 \<longrightarrow>
          (\<exists>encrypted authTag'.
              createCipheriv lib ''aes-256-gcm'' key iv' plaintext = Some (encrypted, authTag') \<and>
              length authTag' = 16 \<and>
              createDecipheriv lib ''aes-256-gcm'' key iv' authTag' encrypted = Some plaintext)))"

text \<open>The marker text that \<open>encryptInPlace\<close> builds around the base64 data.\<close>

definition marker_text :: "jsstring option \<Rightarrow> bool \<Rightarrow> jsstring \<Rightarrow> jsstring" where
  "marker_text hint' showMarker combinedBase64 =
     (if showMarker then GLYPH else js ''%%'' @ GLYPH)
     @ (case hint' of
          None \<Rightarrow> combinedBase64
        | Some h \<Rightarrow> if h \<noteq> [] then h @ js '':'' @ combinedBase64 else combinedBase64)
     @ (if showMarker then GLYPH else GLYPH @ js ''%%'')"

text \<open>
  The calls that can reach a cache: the public methods and the sweep run by the timer.
  \<open>after folderOf now c s\<close> is the state that the call \<open>c\<close>, made at time \<open>now\<close>, leaves.
  \<open>size\<close> only reads, and \<open>dispose\<close> only stops the timer.
\<close>

datatype cache_call =
    Init bool int level
  | RemoveExpiredEntries
  | Put PasswordAndHint jsstring
  | Get jsstring
  | Has jsstring
  | ClearForFile jsstring
  | Clear
  | Size
  | Dispose

fun after :: "(jsstring \<Rightarrow> jsstring option) \<Rightarrow> int \<Rightarrow> cache_call \<Rightarrow> PasswordService \<Rightarrow> PasswordService" where
  "after folderOf now (Init a t l) s = init s a t l"
| "after folderOf now RemoveExpiredEntries s = removeExpiredEntries s now"
| "after folderOf now (Put passwordAndHint filePath) s = put s folderOf now passwordAndHint filePath"
| "after folderOf now (Get filePath) s = snd (get s folderOf now filePath)"
| "after folderOf now (Has filePath) s = snd (has s folderOf now filePath)"
| "after folderOf now (ClearForFile filePath) s = clearForFile s folderOf filePath"
| "after folderOf now Clear s = snd (clear s)"
| "after folderOf now Size s = s"
| "after folderOf now Dispose s = s"

text \<open>
  The reading of decoding that C6 gives: the first occurrence, scanning from the left, of any
  of the four marker shapes. At a position the shapes are tried in the order of the list.
\<close>

fun shape_at :: "atom list list \<Rightarrow> jsstring \<Rightarrow> ParsedInPlace option" where
  "shape_at [] s = None"
| "shape_at (pattern # rest) s =
     (case match_at pattern s of
        Some [h, d] \<Rightarrow> Some \<lparr>markerHint = Some h, combinedData = d\<rparr>
      | Some [d] \<Rightarrow> Some \<lparr>markerHint = None, combinedData = d\<rparr>
      | _ \<Rightarrow> shape_at rest s)"

fun first_occurrence :: "atom list list \<Rightarrow> jsstring \<Rightarrow> ParsedInPlace option" where
  "first_occurrence ps [] = shape_at ps []"
| "first_occurrence ps (u # s) =
     (case shape_at ps (u # s) of Some r \<Rightarrow> Some r | None \<Rightarrow> first_occurrence ps s)"

text \<open>A text with two markers: one without hint, then one with the hint \<open>h\<close>.\<close>

definition two_markers :: jsstring where
  "two_markers = GLYPH @ js ''QUJD'' @ GLYPH @ js '' '' @ GLYPH @ js ''h:REVG'' @ GLYPH"

section \<open>Properties of the encodings\<close>

subsection \<open>UTF-8 and Latin-1\<close>

lemma unat_byte: "n < 256 \<Longrightarrow> unat (of_nat n :: byte) = n"
  by (simp add: unat_of_nat)

lemma unat_unit: "n < 65536 \<Longrightarrow> unat (of_nat n :: unit16) = n"
  by (simp add: unat_of_nat)

lemma unat_unit_bound: "unat (u :: unit16) < 65536"
  using unsigned_less [of u] by simp

lemma unat_byte_bound: "unat (b :: byte) < 256"
  using unsigned_less [of b] by simp

lemma byte_ex: "n < 256 \<Longrightarrow> \<exists>b :: byte. of_nat n = b \<and> unat b = n"
  by (simp add: unat_byte)

lemma utf8_cps_1: "n < 0x80 \<Longrightarrow> utf8_cps (utf8_of_cp n @ rest) = n # utf8_cps rest"
  by (simp add: utf8_of_cp_def unat_byte)

lemma utf8_cps_2:
  assumes "0x80 \<le> n" "n < 0x800"
  shows "utf8_cps (utf8_of_cp n @ rest) = n # utf8_cps rest"
proof -
  obtain b1 :: byte where b1: "of_nat (0xC0 + n div 64) = b1" "unat b1 = 0xC0 + n div 64"
    using byte_ex [of "0xC0 + n div 64"] assms by auto
  obtain b2 :: byte where b2: "of_nat (0x80 + n mod 64) = b2" "unat b2 = 0x80 + n mod 64"
    using byte_ex [of "0x80 + n mod 64"] by auto
  have enc: "utf8_of_cp n = [b1, b2]"
    using assms b1(1) b2(1) unfolding utf8_of_cp_def by (simp del: of_nat_add of_nat_numeral)
  have c: "2 \<le> n div 64" "n div 64 \<le> 31" using assms by arith+
  show ?thesis using c unfolding enc
    by (simp add: b1(2) b2(2) is_cont_def Let_def)
qed

lemma split3:
  fixes n :: nat
  obtains a b c where "n div 4096 = a" "(n div 64) mod 64 = b" "n mod 64 = c"
    "n = a * 4096 + b * 64 + c" "b < 64" "c < 64"
proof -
  have 1: "n div 4096 = n div 64 div 64" by (simp add: div_mult2_eq)
  have 2: "n = (n div 64) * 64 + n mod 64" by simp
  have 3: "n div 64 = (n div 64 div 64) * 64 + (n div 64) mod 64" by simp
  have 4: "n = (n div 4096) * 4096 + ((n div 64) mod 64) * 64 + n mod 64"
    using 2 3 unfolding 1 by linarith
  show ?thesis using that [OF refl refl refl 4] by simp
qed

lemma split4:
  fixes n :: nat
  obtains a b c d where "n div 262144 = a" "(n div 4096) mod 64 = b" "(n div 64) mod 64 = c" "n mod 64 = d"
    "n = a * 262144 + b * 4096 + c * 64 + d" "b < 64" "c < 64" "d < 64"
proof -
  have 0: "n div 262144 = n div 4096 div 64" by (simp add: div_mult2_eq)
  have 1: "n div 4096 = n div 64 div 64" by (simp add: div_mult2_eq)
  have 2: "n = (n div 64) * 64 + n mod 64" by simp
  have 3: "n div 64 = (n div 64 div 64) * 64 + (n div 64) mod 64" by simp
  have 5: "n div 4096 = (n div 4096 div 64) * 64 + (n div 4096) mod 64" by simp
  have 4: "n = (n div 262144) * 262144 + ((n div 4096) mod 64) * 4096 + ((n div 64) mod 64) * 64 + n mod 64"
    using 2 3 5 unfolding 0 1 by linarith
  show ?thesis using that [OF refl refl refl refl 4] by simp
qed

lemma utf8_cps_3:
  assumes "0x800 \<le> n" "n < 0x10000" "\<not> (0xD800 \<le> n \<and> n \<le> 0xDFFF)"
  shows "utf8_cps (utf8_of_cp n @ rest) = n # utf8_cps rest"
proof -
  obtain a b c where abc: "n div 4096 = a" "(n div 64) mod 64 = b" "n mod 64 = c"
    and n: "n = a * 4096 + b * 64 + c" and lt: "b < 64" "c < 64"
    by (rule split3)
  have d: "a \<le> 15" using assms n by linarith
  have e: "a = 0 \<longrightarrow> 32 \<le> b" using assms n lt by linarith
  have f: "a = 13 \<longrightarrow> b \<le> 31" using assms n lt by linarith
  obtain b1 :: byte where b1: "of_nat (0xE0 + a) = b1" "unat b1 = 0xE0 + a"
    using byte_ex [of "0xE0 + a"] d by auto
  obtain b2 :: byte where b2: "of_nat (0x80 + b) = b2" "unat b2 = 0x80 + b"
    using byte_ex [of "0x80 + b"] lt by auto
  obtain b3 :: byte where b3: "of_nat (0x80 + c) = b3" "unat b3 = 0x80 + c"
    using byte_ex [of "0x80 + c"] lt by auto
  have enc: "utf8_of_cp n = [b1, b2, b3]"
    using assms b1(1) b2(1) b3(1) unfolding utf8_of_cp_def abc
    by (simp del: of_nat_add of_nat_numeral)
  have "utf8_cps ([b1, b2, b3] @ rest) = (a * 4096 + b * 64 + c) # utf8_cps rest"
    using d e f lt by (simp add: b1(2) b2(2) b3(2) is_cont_def second_ok_def Let_def)
  then show ?thesis unfolding enc n [symmetric] .
qed

lemma utf8_cps_4:
  assumes "0x10000 \<le> n" "n < 0x110000"
  shows "utf8_cps (utf8_of_cp n @ rest) = n # utf8_cps rest"
proof -
  obtain a b c d where abc: "n div 262144 = a" "(n div 4096) mod 64 = b" "(n div 64) mod 64 = c"
      "n mod 64 = d"
    and n: "n = a * 262144 + b * 4096 + c * 64 + d" and lt: "b < 64" "c < 64" "d < 64"
    by (rule split4)
  have k: "a \<le> 4" using assms n by linarith
  have e: "a = 0 \<longrightarrow> 16 \<le> b" using assms n lt by linarith
  have f: "a = 4 \<longrightarrow> b \<le> 15" using assms n lt by linarith
  obtain b1 :: byte where b1: "of_nat (0xF0 + a) = b1" "unat b1 = 0xF0 + a"
    using byte_ex [of "0xF0 + a"] k by auto
  obtain b2 :: byte where b2: "of_nat (0x80 + b) = b2" "unat b2 = 0x80 + b"
    using byte_ex [of "0x80 + b"] lt by auto
  obtain b3 :: byte where b3: "of_nat (0x80 + c) = b3" "unat b3 = 0x80 + c"
    using byte_ex [of "0x80 + c"] lt by auto
  obtain b4 :: byte where b4: "of_nat (0x80 + d) = b4" "unat b4 = 0x80 + d"
    using byte_ex [of "0x80 + d"] lt by auto
  have enc: "utf8_of_cp n = [b1, b2, b3, b4]"
    using assms b1(1) b2(1) b3(1) b4(1) unfolding utf8_of_cp_def abc
    by (simp del: of_nat_add of_nat_numeral)
  have "utf8_cps ([b1, b2, b3, b4] @ rest) = (a * 262144 + b * 4096 + c * 64 + d) # utf8_cps rest"
    using k e f lt by (simp add: b1(2) b2(2) b3(2) b4(2) is_cont_def second_ok_def Let_def)
  then show ?thesis unfolding enc n [symmetric] .
qed

lemma utf8_cps_of_cp: "scalar n \<Longrightarrow> utf8_cps (utf8_of_cp n @ rest) = n # utf8_cps rest"
  using utf8_cps_1 [of n rest] utf8_cps_2 [of n rest] utf8_cps_3 [of n rest] utf8_cps_4 [of n rest]
  unfolding scalar_def by linarith

lemma utf8_cps_concat:
  "\<forall>n \<in> set cps. scalar n \<Longrightarrow> utf8_cps (concat (map utf8_of_cp cps) @ rest) = cps @ utf8_cps rest"
  by (induction cps) (simp_all add: utf8_cps_of_cp)

lemma pair_split:
  assumes "is_high u" "is_low v"
  obtains x y where "unat u = 0xD800 + x" "unat v = 0xDC00 + y" "x < 0x400" "y < 0x400"
proof -
  have "unat u = 0xD800 + (unat u - 0xD800)" "unat v = 0xDC00 + (unat v - 0xDC00)"
    "unat u - 0xD800 < 0x400" "unat v - 0xDC00 < 0x400"
    using assms unfolding is_high_def is_low_def by linarith+
  then show ?thesis using that by blast
qed

lemma pair_scalar:
  assumes "is_high u" "is_low v"
  shows "scalar (0x10000 + (unat u - 0xD800) * 0x400 + (unat v - 0xDC00))"
proof -
  obtain x y where xy: "unat u = 0xD800 + x" "unat v = 0xDC00 + y" "x < 0x400" "y < 0x400"
    using assms by (rule pair_split)
  show ?thesis unfolding scalar_def xy(1,2) using xy(3,4) by simp
qed

lemma code_points_scalar: "\<forall>n \<in> set (code_points s). scalar n"
proof (induction s rule: code_points.induct)
  case 1 show ?case by simp
next
  case (2 u)
  show ?case using unat_unit_bound [of u] by (simp add: scalar_def is_surrogate_def)
next
  case (3 u v r)
  have single: "scalar (if is_surrogate u then 0xFFFD else unat u)"
    using unat_unit_bound [of u] by (simp add: scalar_def is_surrogate_def)
  show ?case
  proof (cases "is_high u \<and> is_low v")
    case True
    with 3 pair_scalar [of u v] show ?thesis by simp
  next
    case False
    with 3 single show ?thesis by auto
  qed
qed

lemma utf16_of_pair:
  assumes "is_high u" "is_low v"
  shows "utf16_of_cp (0x10000 + (unat u - 0xD800) * 0x400 + (unat v - 0xDC00)) = [u, v]"
proof -
  obtain x y where xy: "unat u = 0xD800 + x" "unat v = 0xDC00 + y" "x < 0x400" "y < 0x400"
    using assms by (rule pair_split)
  have "utf16_of_cp (0x10000 + x * 0x400 + y) = [of_nat (0xD800 + x), of_nat (0xDC00 + y)]"
    using xy(3,4) unfolding utf16_of_cp_def by (simp del: of_nat_add of_nat_numeral)
  moreover have "(of_nat (0xD800 + x) :: unit16) = u" "(of_nat (0xDC00 + y) :: unit16) = v"
    unfolding xy(1,2) [symmetric] by simp_all
  ultimately show ?thesis unfolding xy(1,2) by simp
qed

lemma utf16_of_single:
  "utf16_of_cp (if is_surrogate u then 0xFFFD else unat u) = [if is_surrogate u then 0xFFFD else u]"
  using unat_unit_bound [of u] by (simp add: utf16_of_cp_def)

lemma utf16_of_code_points: "concat (map utf16_of_cp (code_points s)) = toWellFormed s"
proof (induction s rule: code_points.induct)
  case 1 show ?case by simp
next
  case (2 u)
  show ?case using utf16_of_single [of u] by simp
next
  case (3 u v r)
  show ?case
  proof (cases "is_high u \<and> is_low v")
    case True
    then show ?thesis using 3 utf16_of_pair [of u v] by simp
  next
    case False
    then show ?thesis using 3 utf16_of_single [of u] by auto
  qed
qed

lemma utf8_roundtrip: "utf8_decode (utf8_encode s) = toWellFormed s"
  using utf8_cps_concat [OF code_points_scalar, of s "[]"]
  by (simp add: utf8_decode_def utf8_encode_def utf16_of_code_points)

lemma toWellFormed_id: "isWellFormed s \<Longrightarrow> toWellFormed s = s"
  by (induction s rule: toWellFormed.induct) (auto split: if_splits)

lemma binary_roundtrip: "binary_encode (binary_decode bs) = bs"
proof -
  have "(ucast (ucast b :: unit16) :: byte) = b" for b :: byte
    by (simp add: ucast_up_ucast_id is_up)
  then show ?thesis
    unfolding binary_encode_def binary_decode_def by (simp add: map_idI)
qed

subsection \<open>Base64\<close>

lemma unat_b64char:
  "k < 64 \<Longrightarrow> unat (b64char k) =
     (if k < 26 then 65 + k else if k < 52 then 71 + k else if k < 62 then k - 4
      else if k = 62 then 43 else 47)"
  unfolding b64char_def by (rule unat_unit) auto

lemma low_byte_b64char:
  "k < 64 \<Longrightarrow> low_byte (b64char k) =
     (if k < 26 then 65 + k else if k < 52 then 71 + k else if k < 62 then k - 4
      else if k = 62 then 43 else 47)"
  unfolding low_byte_def unat_b64char by auto

lemma unbase64_b64char: "k < 64 \<Longrightarrow> unbase64 (b64char k) = Some k"
  unfolding unbase64_def Let_def low_byte_b64char by (cases "k < 62") auto

lemma b64char_not_pad: "k < 64 \<Longrightarrow> low_byte (b64char k) \<noteq> 61"
  unfolding low_byte_b64char by auto

lemma sextets_Cons: "k < 64 \<Longrightarrow> sextets (b64char k # s) = k # sextets s"
  by (simp add: sextets_def map_filter_simps unbase64_b64char b64char_not_pad)

lemma sextets_pad: "sextets (0x3D # s) = []"
  by (simp add: sextets_def map_filter_simps low_byte_def)

lemma sextets_Nil: "sextets [] = []"
  by (simp add: sextets_def map_filter_simps)

lemma digits4:
  fixes n :: nat
  shows "(n div 262144) * 262144 + ((n div 4096) mod 64) * 4096 + ((n div 64) mod 64) * 64 + n mod 64 = n"
proof -
  have 0: "n div 262144 = n div 4096 div 64" by (simp add: div_mult2_eq)
  have 1: "n div 4096 = n div 64 div 64" by (simp add: div_mult2_eq)
  have 2: "n = (n div 64) * 64 + n mod 64" by simp
  have 3: "n div 64 = (n div 64 div 64) * 64 + (n div 64) mod 64" by simp
  have 5: "n div 4096 = (n div 4096 div 64) * 64 + (n div 4096) mod 64" by simp
  show ?thesis using 2 3 5 unfolding 0 1 by linarith
qed

lemma digits3:
  fixes n :: nat
  shows "(n div 1024) * 4096 + ((n div 16) mod 64) * 64 + (n mod 16) * 4 = n * 4"
proof -
  have 1: "n div 1024 = n div 16 div 64" by (simp add: div_mult2_eq)
  have 2: "n = (n div 16) * 16 + n mod 16" by simp
  have 3: "n div 16 = (n div 16 div 64) * 64 + (n div 16) mod 64" by simp
  show ?thesis using 2 3 unfolding 1 by linarith
qed

lemma digits2:
  fixes n :: nat
  shows "(n div 4) * 64 + (n mod 4) * 16 = n * 16"
proof -
  have 2: "n = (n div 4) * 4 + n mod 4" by simp
  show ?thesis using 2 by linarith
qed

lemma bytes3:
  fixes x y z :: nat
  assumes "y < 256" "z < 256"
  shows "(x * 65536 + y * 256 + z) div 65536 = x"
    and "((x * 65536 + y * 256 + z) div 256) mod 256 = y"
    and "(x * 65536 + y * 256 + z) mod 256 = z"
proof -
  have md: "(m * 256 + k) mod 256 = k" "(m * 256 + k) div 256 = m" if "k < 256" for m k :: nat
    using that by simp_all
  have a: "x * 65536 + y * 256 + z = (x * 256 + y) * 256 + z" by simp
  show "(x * 65536 + y * 256 + z) mod 256 = z" unfolding a by (rule md(1) [OF assms(2)])
  have b: "(x * 65536 + y * 256 + z) div 256 = x * 256 + y" unfolding a by (rule md(2) [OF assms(2)])
  show "((x * 65536 + y * 256 + z) div 256) mod 256 = y" unfolding b by (rule md(1) [OF assms(1)])
  have "(x * 65536 + y * 256 + z) div 65536 = (x * 65536 + y * 256 + z) div 256 div 256"
    by (simp add: div_mult2_eq)
  also have "\<dots> = x" unfolding b by (rule md(2) [OF assms(1)])
  finally show "(x * 65536 + y * 256 + z) div 65536 = x" .
qed

lemma bytes2:
  fixes x y :: nat
  assumes "y < 256"
  shows "((x * 256 + y) * 4) div 1024 = x" and "(((x * 256 + y) * 4) div 4) mod 256 = y"
  using assms by simp_all

lemma base64_roundtrip: "base64_decode (base64_encode bs) = bs"
proof (induction bs rule: base64_encode.induct)
  case 1
  show ?case by (simp add: base64_decode_def sextets_Nil)
next
  case (2 a)
  define n where "n = unat a"
  have n: "n < 256" unfolding n_def by (rule unat_byte_bound)
  have k: "n div 4 < 64" "(n mod 4) * 16 < 64" using n by simp_all
  have "sextets (base64_encode [a]) = [n div 4, (n mod 4) * 16]"
    using k by (simp add: Let_def n_def [symmetric] sextets_Cons sextets_pad)
  then show ?case
    by (simp add: base64_decode_def digits2 n_def)
next
  case (3 a b)
  define n where "n = unat a * 256 + unat b"
  have k: "n div 1024 < 64" "(n div 16) mod 64 < 64" "(n mod 16) * 4 < 64"
    using unat_byte_bound [of a] unat_byte_bound [of b] unfolding n_def by simp_all
  have "sextets (base64_encode [a, b]) = [n div 1024, (n div 16) mod 64, (n mod 16) * 4]"
    using k by (simp add: Let_def n_def [symmetric] sextets_Cons sextets_pad)
  then show ?case
    using bytes2 [of "unat b" "unat a"] unat_byte_bound [of b]
    by (simp add: base64_decode_def digits3 Let_def n_def)
next
  case (4 a b c r)
  define n where "n = unat a * 65536 + unat b * 256 + unat c"
  have k: "n div 262144 < 64" "(n div 4096) mod 64 < 64" "(n div 64) mod 64 < 64" "n mod 64 < 64"
    using unat_byte_bound [of a] unat_byte_bound [of b] unat_byte_bound [of c] unfolding n_def
    by simp_all
  have "sextets (base64_encode (a # b # c # r)) =
          [n div 262144, (n div 4096) mod 64, (n div 64) mod 64, n mod 64] @ sextets (base64_encode r)"
    using k by (simp add: Let_def n_def [symmetric] sextets_Cons)
  then show ?case
    using 4 bytes3 [of "unat b" "unat c" "unat a"] unat_byte_bound [of b] unat_byte_bound [of c]
    by (simp add: base64_decode_def digits4 Let_def n_def)
qed

subsection \<open>The pattern matcher\<close>

lemma first_some_Some: "0 < n \<Longrightarrow> f n = Some x \<Longrightarrow> first_some f n = Some x"
  by (cases n) simp_all

lemma first_some_SomeD:
  "first_some f n = Some x \<Longrightarrow> \<exists>k. 0 < k \<and> k \<le> n \<and> f k = Some x"
proof (induction n)
  case 0 then show ?case by simp
next
  case (Suc n)
  show ?case
  proof (cases "f (Suc n)")
    case None
    with Suc obtain k where "0 < k" "k \<le> n" "f k = Some x" by auto
    then show ?thesis by (intro exI [of _ k]) simp
  next
    case (Some y)
    with Suc.prems have "f (Suc n) = Some x" by simp
    then show ?thesis by (intro exI [of _ "Suc n"]) simp
  qed
qed

lemma first_some_None: "(\<And>k. 0 < k \<Longrightarrow> k \<le> n \<Longrightarrow> f k = None) \<Longrightarrow> first_some f n = None"
  by (induction n) simp_all

lemma take_takeWhile_all:
  assumes "k \<le> length (takeWhile C s)"
  shows "list_all C (take k s)"
proof -
  have "take k (takeWhile C s @ dropWhile C s) = take k (takeWhile C s)"
    using assms by (simp only: take_append diff_is_0_eq' take_0 append_Nil2)
  then have eq: "take k s = take k (takeWhile C s)" by (simp only: takeWhile_dropWhile_id)
  have "C x" if "x \<in> set (take k s)" for x
  proof -
    from that have "x \<in> set (takeWhile C s)" unfolding eq by (rule in_set_takeD)
    then show ?thesis by (rule set_takeWhileD [THEN conjunct2])
  qed
  then show ?thesis unfolding list_all_iff by (rule ballI)
qed

lemma match_at_sound:
  "match_at p s = Some caps \<Longrightarrow> \<exists>m rest. spell p caps = Some m \<and> s = m @ rest"
proof (induction p arbitrary: s caps)
  case Nil
  then show ?case by simp
next
  case (Cons a r)
  show ?case
  proof (cases a)
    case (Lit l)
    with Cons.prems have l: "take (length l) s = l" and m: "match_at r (drop (length l) s) = Some caps"
      by (simp_all split: if_splits)
    from Cons.IH [OF m] obtain m' rest where m': "spell r caps = Some m'" "drop (length l) s = m' @ rest"
      by blast
    have "s = take (length l) s @ drop (length l) s" by simp
    then have "s = (l @ m') @ rest" unfolding l m'(2) by simp
    moreover have "spell (a # r) caps = Some (l @ m')" using Lit m'(1) by simp
    ultimately show ?thesis by blast
  next
    case (Group C)
    with Cons.prems have
      "first_some (\<lambda>n. map_option ((#) (take n s)) (match_at r (drop n s))) (length (takeWhile C s)) = Some caps"
      by simp
    from first_some_SomeD [OF this] obtain k where k: "0 < k" "k \<le> length (takeWhile C s)"
      and f: "map_option ((#) (take k s)) (match_at r (drop k s)) = Some caps"
      by blast
    from f obtain caps' where c: "match_at r (drop k s) = Some caps'" "caps = take k s # caps'"
      by (cases "match_at r (drop k s)") auto
    from Cons.IH [OF c(1)] obtain m' rest where m: "spell r caps' = Some m'" "drop k s = m' @ rest"
      by blast
    have "k \<le> length s" using k(2) length_takeWhile_le [of C s] by simp
    then have ne: "take k s \<noteq> []" using k(1) by auto
    have "s = take k s @ drop k s" by simp
    then have "s = (take k s @ m') @ rest" unfolding m(2) by simp
    moreover have "spell (a # r) caps = Some (take k s @ m')"
      using Group c(2) m(1) ne take_takeWhile_all [OF k(2)] by simp
    ultimately show ?thesis by blast
  qed
qed

lemma exec_sound:
  "exec p s = Some caps \<Longrightarrow>
     \<exists>pre s'. s = pre @ s' \<and> match_at p s' = Some caps \<and>
               (\<forall>i < length pre. match_at p (drop i s) = None)"
proof (induction s)
  case Nil
  show ?case
  proof (intro exI conjI)
    show "([]::jsstring) = [] @ []" by simp
    show "match_at p [] = Some caps" using Nil by simp
    show "\<forall>i < length ([]::jsstring). match_at p (drop i []) = None" by simp
  qed
next
  case (Cons u s)
  show ?case
  proof (cases "match_at p (u # s)")
    case (Some m)
    show ?thesis
    proof (intro exI conjI)
      show "u # s = [] @ (u # s)" by simp
      show "match_at p (u # s) = Some caps" using Some Cons.prems by simp
      show "\<forall>i < length ([]::jsstring). match_at p (drop i (u # s)) = None" by simp
    qed
  next
    case None
    with Cons.prems have "exec p s = Some caps" by simp
    from Cons.IH [OF this] obtain pre s' where
      *: "s = pre @ s'" "match_at p s' = Some caps" "\<forall>i < length pre. match_at p (drop i s) = None"
      by blast
    show ?thesis
    proof (intro exI conjI)
      show "u # s = (u # pre) @ s'" using *(1) by simp
      show "match_at p s' = Some caps" by (rule *(2))
      show "\<forall>i < length (u # pre). match_at p (drop i (u # s)) = None"
      proof (intro allI impI)
        fix i assume "i < length (u # pre)"
        then show "match_at p (drop i (u # s)) = None"
          using None *(3) by (cases i) simp_all
      qed
    qed
  qed
qed

lemma exec_here: "match_at p s = Some m \<Longrightarrow> exec p s = Some m"
  by (cases s) simp_all

lemma exec_skip:
  "(\<forall>i < length pre. match_at p (drop i (pre @ s)) = None) \<Longrightarrow> exec p (pre @ s) = exec p s"
proof (induction pre)
  case Nil
  then show ?case by simp
next
  case (Cons u pre)
  have "match_at p (u # pre @ s) = None" using Cons.prems by force
  moreover have "\<forall>i < length pre. match_at p (drop i (pre @ s)) = None"
    using Cons.prems by force
  ultimately show ?case using Cons.IH by simp
qed

lemma exec_None:
  "(\<forall>i \<le> length s. match_at p (drop i s) = None) \<Longrightarrow> exec p s = None"
proof (induction s)
  case Nil
  then show ?case by simp
next
  case (Cons u s)
  have "match_at p (u # s) = None" using Cons.prems by force
  moreover have "\<forall>i \<le> length s. match_at p (drop i s) = None"
    using Cons.prems by force
  ultimately show ?case using Cons.IH by simp
qed

lemma match_at_Lit: "match_at (Lit l # r) (l @ s) = match_at r s"
  by simp

lemma match_at_Lit_fail: "take (length l) s \<noteq> l \<Longrightarrow> match_at (Lit l # r) s = None"
  by simp

lemma match_at_Group:
  assumes "c \<noteq> []" "list_all C c" "s = [] \<or> \<not> C (hd s)" "match_at r s = Some caps"
  shows "match_at (Group C # r) (c @ s) = Some (c # caps)"
proof -
  have tw: "takeWhile C (c @ s) = c"
    using assms(2,3) by (cases s) (auto simp: list_all_iff takeWhile_append2 takeWhile_eq_all_conv)
  show ?thesis
    using assms(1,4) by (simp add: tw first_some_Some)
qed

lemma js_colon: "js '':'' = [0x3A]"
  by (simp add: js_def)

lemma js_pp: "js ''%%'' = [0x25, 0x25]"
  by (simp add: js_def)

lemma not_hint_colon: "\<not> hint_class 0x3A"
  by (simp add: hint_class_def)

lemma not_base64_glyph: "\<not> base64_class 0xD83D"
  by (simp add: base64_class_def)

lemma base64_class_no_colon: "base64_class u \<Longrightarrow> u \<noteq> 0x3A"
  by (auto simp: base64_class_def)

lemma base64_class_b64char: "k < 64 \<Longrightarrow> base64_class (b64char k)"
  unfolding base64_class_def Let_def unat_b64char by auto

lemma base64_class_pad: "base64_class 0x3D"
  by (simp add: base64_class_def)

lemma base64_encode_class: "list_all base64_class (base64_encode bs)"
proof (induction bs rule: base64_encode.induct)
  case 1 show ?case by simp
next
  case (2 a)
  have "unat a div 4 < 64" "(unat a mod 4) * 16 < 64" using unat_byte_bound [of a] by simp_all
  then show ?case by (simp add: Let_def base64_class_b64char base64_class_pad)
next
  case (3 a b)
  define n where "n = unat a * 256 + unat b"
  have "n div 1024 < 64" "(n div 16) mod 64 < 64" "(n mod 16) * 4 < 64"
    using unat_byte_bound [of a] unat_byte_bound [of b] unfolding n_def by simp_all
  then show ?case by (simp add: Let_def n_def [symmetric] base64_class_b64char base64_class_pad)
next
  case (4 a b c r)
  define n where "n = unat a * 65536 + unat b * 256 + unat c"
  have "n div 262144 < 64" "(n div 4096) mod 64 < 64" "(n div 64) mod 64 < 64" "n mod 64 < 64"
    using unat_byte_bound [of a] unat_byte_bound [of b] unat_byte_bound [of c] unfolding n_def
    by simp_all
  then show ?case using 4 by (simp add: Let_def n_def [symmetric] base64_class_b64char)
qed

lemma base64_encode_nonempty: "bs \<noteq> [] \<Longrightarrow> base64_encode bs \<noteq> []"
  by (cases bs rule: base64_encode.cases) (simp_all add: Let_def)

lemma match_with_hint:
  assumes "h \<noteq> []" "list_all hint_class h" "d \<noteq> []" "list_all base64_class d"
  shows "match_at with_hint (GLYPH @ h @ js '':'' @ d @ GLYPH @ post) = Some [h, d]"
proof -
  have 1: "match_at [Lit GLYPH] (GLYPH @ post) = Some []" by simp
  have 2: "match_at [Group base64_class, Lit GLYPH] (d @ GLYPH @ post) = Some [d]"
    by (rule match_at_Group [OF assms(3,4) _ 1]) (simp add: GLYPH_def not_base64_glyph)
  have 3: "match_at [Lit (js '':''), Group base64_class, Lit GLYPH] (js '':'' @ d @ GLYPH @ post) = Some [d]"
    unfolding match_at_Lit by (rule 2)
  have 4: "match_at [Group hint_class, Lit (js '':''), Group base64_class, Lit GLYPH]
             (h @ js '':'' @ d @ GLYPH @ post) = Some [h, d]"
    by (rule match_at_Group [OF assms(1,2) _ 3]) (simp add: js_colon not_hint_colon)
  show ?thesis unfolding with_hint_def match_at_Lit by (rule 4)
qed

lemma match_without_hint:
  assumes "d \<noteq> []" "list_all base64_class d"
  shows "match_at without_hint (GLYPH @ d @ GLYPH @ post) = Some [d]"
proof -
  have 1: "match_at [Lit GLYPH] (GLYPH @ post) = Some []" by simp
  have 2: "match_at [Group base64_class, Lit GLYPH] (d @ GLYPH @ post) = Some [d]"
    by (rule match_at_Group [OF assms(1,2) _ 1]) (simp add: GLYPH_def not_base64_glyph)
  show ?thesis unfolding without_hint_def match_at_Lit by (rule 2)
qed

lemma spell_with_hint:
  assumes "spell with_hint caps = Some m"
  shows "\<exists>h d. caps = [h, d] \<and> h \<noteq> [] \<and> list_all hint_class h \<and> d \<noteq> [] \<and> list_all base64_class d
           \<and> m = GLYPH @ h @ js '':'' @ d @ GLYPH"
proof (cases caps)
  case Nil
  with assms show ?thesis by (simp add: with_hint_def)
next
  case (Cons h r)
  show ?thesis
  proof (cases r)
    case Nil
    with Cons assms show ?thesis by (simp add: with_hint_def split: if_splits)
  next
    case (Cons d r')
    show ?thesis
    proof (cases r')
      case Nil
      with \<open>caps = h # r\<close> \<open>r = d # r'\<close> assms show ?thesis
        by (auto simp: with_hint_def split: if_splits)
    next
      case (Cons x r'')
      with \<open>caps = h # r\<close> \<open>r = d # r'\<close> assms show ?thesis
        by (simp add: with_hint_def split: if_splits)
    qed
  qed
qed

lemma spell_without_hint:
  assumes "spell without_hint caps = Some m"
  shows "\<exists>d. caps = [d] \<and> d \<noteq> [] \<and> list_all base64_class d \<and> m = GLYPH @ d @ GLYPH"
proof (cases caps)
  case Nil
  with assms show ?thesis by (simp add: without_hint_def)
next
  case (Cons d r)
  show ?thesis
  proof (cases r)
    case Nil
    with Cons assms show ?thesis by (auto simp: without_hint_def split: if_splits)
  next
    case (Cons x r')
    with \<open>caps = d # r\<close> assms show ?thesis by (simp add: without_hint_def split: if_splits)
  qed
qed

section \<open>Encryption and decryption through the library\<close>

lemma map_shift: "map (\<lambda>i. f (i + n)) [0..<m] = map f [n..<n + m]"
proof -
  have "map f [n..<n + m] = map f (map (\<lambda>i. i + n) [0..<m])"
    by (simp add: map_add_upt add.commute)
  then show ?thesis by (simp add: comp_def)
qed

lemma encryptToBase64_eq:
  "encryptToBase64 lib plaintext pw w =
     (case createCipheriv lib ALGORITHM (derived_key lib pw (drawn_salt w)) (drawn_iv w)
             (utf8_encode plaintext) of
        None \<Rightarrow> (None, after_encrypt w)
      | Some (encrypted, authTag') \<Rightarrow>
          (Some \<lparr>ciphertext = base64_encode encrypted,
                 salt = base64_encode (drawn_salt w),
                 iv = base64_encode (drawn_iv w),
                 authTag = base64_encode authTag'\<rparr>, after_encrypt w))"
proof -
  have iv: "map (\<lambda>i. entropy w (i + 16)) [0..<16] = map (entropy w) [16..<32]"
    using map_shift [of "entropy w" 16 16] by simp
  show ?thesis
    unfolding encryptToBase64_def randomBytes_def deriveKey_def derived_key_def drawn_salt_def
      drawn_iv_def after_encrypt_def SALT_LENGTH_def IV_LENGTH_def KEY_LENGTH_def ITERATIONS_def
    by (simp add: Let_def iv binary_roundtrip add.commute split: option.split prod.split)
qed

lemma decryptFromBase64_eq:
  "decryptFromBase64 lib (base64_encode encrypted) pw (base64_encode salt') (base64_encode iv')
       (base64_encode authTag') w =
     (map_option utf8_decode
        (createDecipheriv lib ALGORITHM (derived_key lib pw salt') iv' authTag' encrypted),
      after_decrypt w)"
  unfolding decryptFromBase64_def deriveKey_def derived_key_def after_decrypt_def
    KEY_LENGTH_def ITERATIONS_def
  by (simp add: Let_def base64_roundtrip split: option.split)

lemma library_sound_key: "library_sound lib \<Longrightarrow> length (derived_key lib pw salt') = 32"
  by (simp add: library_sound_def derived_key_def)

lemma length_drawn: "length (drawn_salt w) = 16" "length (drawn_iv w) = 16"
  by (simp_all add: drawn_salt_def drawn_iv_def)

lemma library_sound_encrypt:
  assumes "library_sound lib"
  obtains encrypted authTag' where
    "createCipheriv lib ALGORITHM (derived_key lib pw (drawn_salt w)) (drawn_iv w) plaintext
       = Some (encrypted, authTag')"
    "length authTag' = 16"
    "createDecipheriv lib ALGORITHM (derived_key lib pw (drawn_salt w)) (drawn_iv w) authTag' encrypted
       = Some plaintext"
proof -
  have "length (derived_key lib pw (drawn_salt w)) = 32 \<and> length (drawn_iv w) = 16"
    using library_sound_key [OF assms] length_drawn by simp
  then obtain e t where
    "createCipheriv lib ''aes-256-gcm'' (derived_key lib pw (drawn_salt w)) (drawn_iv w) plaintext = Some (e, t)"
    "length t = 16"
    "createDecipheriv lib ''aes-256-gcm'' (derived_key lib pw (drawn_salt w)) (drawn_iv w) t e = Some plaintext"
    using assms unfolding library_sound_def by blast
  then show ?thesis using that unfolding ALGORITHM_def by blast
qed

lemma sample_crypto_sound: "library_sound sample_crypto"
  unfolding library_sound_def sample_crypto_def
  by (auto simp: comp_def map_idI)

lemma encryptFileContent_eq:
  "encryptFileContent lib content pw hint' w =
     (case createCipheriv lib ALGORITHM (derived_key lib pw (drawn_salt w)) (drawn_iv w)
             (utf8_encode content) of
        None \<Rightarrow> (None, after_encrypt w)
      | Some (encrypted, authTag') \<Rightarrow>
          (Some \<lparr>ciphertext = base64_encode encrypted,
                 salt = base64_encode (drawn_salt w),
                 iv = base64_encode (drawn_iv w),
                 authTag = base64_encode authTag',
                 version = js ''1.0'', hint_opt = hint'\<rparr>, after_encrypt w))"
  unfolding encryptFileContent_def encryptToBase64_eq
  by (simp split: option.split prod.split)

lemma file_roundtrip:
  assumes "library_sound lib"
  shows "\<exists>fileData. encryptFileContent lib content pw hint' w = (Some fileData, after_encrypt w) \<and>
           version fileData = js ''1.0'' \<and> hint_opt fileData = hint' \<and>
           (\<forall>v w'. decryptFileData lib (fileData\<lparr>version := v\<rparr>) pw w'
                     = (Some (toWellFormed content), after_decrypt w'))"
proof -
  obtain encrypted authTag' where
    e: "createCipheriv lib ALGORITHM (derived_key lib pw (drawn_salt w)) (drawn_iv w) (utf8_encode content)
          = Some (encrypted, authTag')"
    and d: "createDecipheriv lib ALGORITHM (derived_key lib pw (drawn_salt w)) (drawn_iv w) authTag' encrypted
          = Some (utf8_encode content)"
    using library_sound_encrypt [OF assms] by blast
  show ?thesis
    unfolding encryptFileContent_eq e
    by (simp add: decryptFileData_def decryptFromBase64_eq d utf8_roundtrip)
qed

lemma sample_file_roundtrip:
  "encryptFileContent sample_crypto content pw hint' w
     = (Some (the (fst (encryptFileContent sample_crypto content pw hint' w))), after_encrypt w) \<and>
   (\<forall>v w'. decryptFileData sample_crypto
              ((the (fst (encryptFileContent sample_crypto content pw hint' w)))\<lparr>version := v\<rparr>) pw w'
            = (Some (toWellFormed content), after_decrypt w'))"
  using file_roundtrip [OF sample_crypto_sound, of content pw hint' w] by auto

lemma wf_hello: "isWellFormed (js ''hello'')"
  by (simp add: js_def is_high_def is_low_def is_surrogate_def)

lemma same_bytes_same_key:
  "utf8_encode pw2 = utf8_encode pw1 \<Longrightarrow> derived_key lib pw2 salt' = derived_key lib pw1 salt'"
  by (simp add: derived_key_def)


lemma first_some_numeral:
  "first_some f (numeral k) =
     (case f (numeral k) of Some x \<Rightarrow> Some x | None \<Rightarrow> first_some f (pred_numeral k))"
  by (simp add: numeral_eq_Suc)

lemma first_some_Suc0: "first_some f (Suc 0) = f (Suc 0)"
  by (simp add: option.case_eq_if)

lemma match_at_Lit_hd:
  assumes "l \<noteq> []" "s = [] \<or> hd s \<noteq> hd l"
  shows "match_at (Lit l # r) s = None"
proof -
  have "take (length l) s \<noteq> l"
  proof
    assume eq: "take (length l) s = l"
    with assms(1) have "s \<noteq> []" by auto
    then have "hd (take (length l) s) = hd s" using assms(1) by (cases s; cases l) simp_all
    with eq assms(2) \<open>s \<noteq> []\<close> show False by simp
  qed
  then show ?thesis by simp
qed

lemma exec_skip_hd:
  assumes "l \<noteq> []" "hd l \<notin> set pre"
  shows "exec (Lit l # r) (pre @ s) = exec (Lit l # r) s"
proof (rule exec_skip, intro allI impI)
  fix i assume i: "i < length pre"
  then have "drop i (pre @ s) = (pre ! i) # drop (Suc i) pre @ s"
    by (simp add: Cons_nth_drop_Suc)
  moreover have "pre ! i \<noteq> hd l" using i assms(2) by (metis nth_mem)
  ultimately show "match_at (Lit l # r) (drop i (pre @ s)) = None"
    using match_at_Lit_hd [OF assms(1), of "drop i (pre @ s)" r] by simp
qed

lemma exec_with_hint_colon:
  assumes "exec with_hint t = Some caps"
  shows "0x3A \<in> set t"
proof -
  from exec_sound [OF assms] obtain pre s' where t: "t = pre @ s'" and m: "match_at with_hint s' = Some caps"
    by blast
  from match_at_sound [OF m] obtain m' rest where sp: "spell with_hint caps = Some m'" and s': "s' = m' @ rest"
    by blast
  from spell_with_hint [OF sp] obtain h d where "m' = GLYPH @ h @ js '':'' @ d @ GLYPH" by blast
  then show ?thesis unfolding t s' by (simp add: js_colon)
qed

lemma glyph_hd: "GLYPH \<noteq> []" "hd GLYPH = 0xD83D"
  by (simp_all add: GLYPH_def)

lemma exec_with_hint_marker:
  assumes "h \<noteq> []" "list_all hint_class h" "d \<noteq> []" "list_all base64_class d" "0xD83D \<notin> set pre"
  shows "exec with_hint (pre @ GLYPH @ h @ js '':'' @ d @ GLYPH @ post) = Some [h, d]"
proof -
  have "exec with_hint (pre @ GLYPH @ h @ js '':'' @ d @ GLYPH @ post)
        = exec with_hint (GLYPH @ h @ js '':'' @ d @ GLYPH @ post)"
    unfolding with_hint_def using assms(5) by (intro exec_skip_hd) (simp_all add: glyph_hd)
  also have "\<dots> = Some [h, d]"
    by (rule exec_here [OF match_with_hint [OF assms(1-4)]])
  finally show ?thesis .
qed

lemma exec_without_hint_marker:
  assumes "d \<noteq> []" "list_all base64_class d" "0xD83D \<notin> set pre"
  shows "exec without_hint (pre @ GLYPH @ d @ GLYPH @ post) = Some [d]"
proof -
  have "exec without_hint (pre @ GLYPH @ d @ GLYPH @ post) = exec without_hint (GLYPH @ d @ GLYPH @ post)"
    unfolding without_hint_def using assms(3) by (intro exec_skip_hd) (simp_all add: glyph_hd)
  also have "\<dots> = Some [d]"
    by (rule exec_here [OF match_without_hint [OF assms(1,2)]])
  finally show ?thesis .
qed

lemma parse_marker_hint:
  assumes "h \<noteq> []" "list_all hint_class h" "d \<noteq> []" "list_all base64_class d" "0xD83D \<notin> set pre"
  shows "parseInPlaceEncrypted (pre @ GLYPH @ h @ js '':'' @ d @ GLYPH @ post)
           = Some \<lparr>markerHint = Some h, combinedData = d\<rparr>"
  unfolding parseInPlaceEncrypted_def patterns_def
  by (simp add: exec_with_hint_marker [OF assms])

lemma parse_marker_nohint:
  assumes "d \<noteq> []" "list_all base64_class d" "0xD83D \<notin> set pre" "0x3A \<notin> set pre" "0x3A \<notin> set post"
  shows "parseInPlaceEncrypted (pre @ GLYPH @ d @ GLYPH @ post)
           = Some \<lparr>markerHint = None, combinedData = d\<rparr>"
proof -
  have "0x3A \<notin> set d" using assms(2) base64_class_no_colon by (auto simp: list_all_iff)
  then have nc: "0x3A \<notin> set (pre @ GLYPH @ d @ GLYPH @ post)"
    using assms(4,5) by (simp add: GLYPH_def)
  have "exec with_hint (pre @ GLYPH @ d @ GLYPH @ post) = None"
  proof (cases "exec with_hint (pre @ GLYPH @ d @ GLYPH @ post)")
    case None
    then show ?thesis .
  next
    case (Some caps)
    from exec_with_hint_colon [OF this] nc show ?thesis by blast
  qed
  then show ?thesis
    unfolding parseInPlaceEncrypted_def patterns_def
    by (simp add: exec_without_hint_marker [OF assms(1-3)])
qed

lemma encryptInPlace_eq:
  "encryptInPlace lib text' pw hint' showMarker w =
     (case createCipheriv lib ALGORITHM (derived_key lib pw (drawn_salt w)) (drawn_iv w)
             (utf8_encode text') of
        None \<Rightarrow> (None, after_encrypt w)
      | Some (encrypted, authTag') \<Rightarrow>
          (Some (marker_text hint' showMarker
                   (base64_encode (drawn_salt w @ drawn_iv w @ authTag' @ encrypted))),
           after_encrypt w))"
  unfolding encryptInPlace_def encryptToBase64_eq marker_text_def
  by (simp add: Let_def base64_roundtrip split: option.split prod.split)

lemma decryptInPlace_eq:
  assumes "parseInPlaceEncrypted t = Some p"
  shows "decryptInPlace lib t pw w =
     (if length (base64_decode (combinedData p)) < 48 then (None, w)
      else (map_option utf8_decode
              (createDecipheriv lib ALGORITHM
                 (derived_key lib pw (take 16 (base64_decode (combinedData p))))
                 (take 16 (drop 16 (base64_decode (combinedData p))))
                 (take 16 (drop 32 (base64_decode (combinedData p))))
                 (drop 48 (base64_decode (combinedData p)))),
            after_decrypt w))"
  unfolding decryptInPlace_def assms
  by (simp add: Let_def subarray_def SALT_LENGTH_def IV_LENGTH_def AUTH_TAG_LENGTH_def
        decryptFromBase64_eq)

lemma decryptInPlace_no_marker:
  "parseInPlaceEncrypted t = None \<Longrightarrow> decryptInPlace lib t pw w = (None, w)"
  by (simp add: decryptInPlace_def)

lemma pp_glyph_free: "0xD83D \<notin> set (js ''%%'')" "0x3A \<notin> set (js ''%%'')"
  by (simp_all add: js_def)

lemma parse_marker_text_nohint:
  assumes "d \<noteq> []" "list_all base64_class d" "hint' = None \<or> hint' = Some []"
  shows "parseInPlaceEncrypted (marker_text hint' showMarker d)
           = Some \<lparr>markerHint = None, combinedData = d\<rparr>"
proof (cases showMarker)
  case True
  have "parseInPlaceEncrypted ([] @ GLYPH @ d @ GLYPH @ []) = Some \<lparr>markerHint = None, combinedData = d\<rparr>"
    by (rule parse_marker_nohint [OF assms(1,2)]) simp_all
  then show ?thesis using True assms(3) by (auto simp: marker_text_def)
next
  case False
  have "parseInPlaceEncrypted (js ''%%'' @ GLYPH @ d @ GLYPH @ js ''%%'')
          = Some \<lparr>markerHint = None, combinedData = d\<rparr>"
    by (rule parse_marker_nohint [OF assms(1,2)]) (simp_all add: pp_glyph_free)
  then show ?thesis using False assms(3) by (auto simp: marker_text_def)
qed

lemma parse_marker_text_hint:
  assumes "d \<noteq> []" "list_all base64_class d" "h \<noteq> []" "list_all hint_class h"
  shows "parseInPlaceEncrypted (marker_text (Some h) showMarker d)
           = Some \<lparr>markerHint = Some h, combinedData = d\<rparr>"
proof (cases showMarker)
  case True
  have "parseInPlaceEncrypted ([] @ GLYPH @ h @ js '':'' @ d @ GLYPH @ [])
          = Some \<lparr>markerHint = Some h, combinedData = d\<rparr>"
    by (rule parse_marker_hint [OF assms(3,4,1,2)]) simp
  then show ?thesis using True assms(3) by (simp add: marker_text_def)
next
  case False
  have "parseInPlaceEncrypted (js ''%%'' @ GLYPH @ h @ js '':'' @ d @ GLYPH @ js ''%%'')
          = Some \<lparr>markerHint = Some h, combinedData = d\<rparr>"
    by (rule parse_marker_hint [OF assms(3,4,1,2)]) (simp add: pp_glyph_free)
  then show ?thesis using False assms(3) by (simp add: marker_text_def)
qed

lemma combined_nonempty: "drawn_salt w @ rest \<noteq> []"
  using length_drawn(1) [of w] by (cases "drawn_salt w") simp_all

lemma combined_split:
  assumes "length authTag' = 16"
  shows "length (drawn_salt w @ drawn_iv w @ authTag' @ encrypted) \<ge> 48"
    "take 16 (drawn_salt w @ drawn_iv w @ authTag' @ encrypted) = drawn_salt w"
    "take 16 (drop 16 (drawn_salt w @ drawn_iv w @ authTag' @ encrypted)) = drawn_iv w"
    "take 16 (drop 32 (drawn_salt w @ drawn_iv w @ authTag' @ encrypted)) = authTag'"
    "drop 48 (drawn_salt w @ drawn_iv w @ authTag' @ encrypted) = encrypted"
  using assms length_drawn [of w] by simp_all

lemma inplace_roundtrip_general:
  assumes "library_sound lib"
    and "hint' = None \<or> hint' = Some [] \<or> (\<exists>h. hint' = Some h \<and> list_all hint_class h)"
  shows "\<exists>marker. encryptInPlace lib text' pw hint' showMarker w = (Some marker, after_encrypt w) \<and>
           (\<exists>d. parseInPlaceEncrypted marker
                   = Some \<lparr>markerHint = (if hint' = Some [] then None else hint'), combinedData = d\<rparr>) \<and>
           (\<forall>w'. decryptInPlace lib marker pw w' = (Some (toWellFormed text'), after_decrypt w'))"
proof -
  obtain encrypted authTag' where
    e: "createCipheriv lib ALGORITHM (derived_key lib pw (drawn_salt w)) (drawn_iv w) (utf8_encode text')
          = Some (encrypted, authTag')"
    and len: "length authTag' = 16"
    and d: "createDecipheriv lib ALGORITHM (derived_key lib pw (drawn_salt w)) (drawn_iv w) authTag' encrypted
          = Some (utf8_encode text')"
    using library_sound_encrypt [OF assms(1)] by blast
  define blob where "blob = drawn_salt w @ drawn_iv w @ authTag' @ encrypted"
  define b64 where "b64 = base64_encode blob"
  have ne: "b64 \<noteq> []" unfolding b64_def blob_def by (rule base64_encode_nonempty [OF combined_nonempty])
  have cl: "list_all base64_class b64" unfolding b64_def by (rule base64_encode_class)
  have p: "parseInPlaceEncrypted (marker_text hint' showMarker b64)
             = Some \<lparr>markerHint = (if hint' = Some [] then None else hint'), combinedData = b64\<rparr>"
  proof (cases "hint' = None \<or> hint' = Some []")
    case True
    then show ?thesis using parse_marker_text_nohint [OF ne cl True, of showMarker] by auto
  next
    case False
    with assms(2) obtain h where h: "hint' = Some h" "list_all hint_class h" "h \<noteq> []" by auto
    show ?thesis using parse_marker_text_hint [OF ne cl h(3,2), of showMarker] h by simp
  qed
  have dec: "decryptInPlace lib (marker_text hint' showMarker b64) pw w'
               = (Some (toWellFormed text'), after_decrypt w')" for w'
    unfolding decryptInPlace_eq [OF p]
    using combined_split [OF len, of w encrypted]
    by (simp add: b64_def blob_def base64_roundtrip d utf8_roundtrip)
  have enc: "encryptInPlace lib text' pw hint' showMarker w
               = (Some (marker_text hint' showMarker b64), after_encrypt w)"
    unfolding encryptInPlace_eq e by (simp add: b64_def blob_def)
  show ?thesis using enc p dec by blast
qed

lemma utf8_pw: "utf8_encode (js ''pw'') = [0x70, 0x77]"
  by (simp add: js_def utf8_encode_def utf8_of_cp_def is_high_def is_low_def is_surrogate_def)

lemma utf8_wrong: "utf8_encode (js ''wrong'') = [0x77, 0x72, 0x6F, 0x6E, 0x67]"
  by (simp add: js_def utf8_encode_def utf8_of_cp_def is_high_def is_low_def is_surrogate_def)

lemma sample_pbkdf2:
  "pbkdf2Sync sample_crypto pw salt' iterations keylen digest = take keylen (pw @ salt' @ replicate keylen 0)"
  by (simp add: sample_crypto_def)

lemma sample_cipher:
  "createCipheriv sample_crypto alg key iv' plaintext =
     (if alg = ''aes-256-gcm'' \<and> length key = 32 \<and> iv' \<noteq> []
      then Some (map (\<lambda>b. b + sample_mask key iv') plaintext, take 16 key) else None)"
  by (simp add: sample_crypto_def)

lemma sample_decipher:
  "createDecipheriv sample_crypto alg key iv' authTag' encrypted =
     (if alg = ''aes-256-gcm'' \<and> length key = 32 \<and> iv' \<noteq> [] \<and> authTag' = take 16 key
      then Some (map (\<lambda>b. b - sample_mask key iv') encrypted) else None)"
  by (simp add: sample_crypto_def)

lemma sample_key_pw:
  "derived_key sample_crypto (js ''pw'') salt' = take 32 (0x70 # 0x77 # salt' @ replicate 32 0)"
  unfolding derived_key_def sample_pbkdf2 utf8_pw by simp

lemma sample_key_wrong:
  "derived_key sample_crypto (js ''wrong'') salt'
     = take 32 (0x77 # 0x72 # 0x6F # 0x6E # 0x67 # salt' @ replicate 32 0)"
  unfolding derived_key_def sample_pbkdf2 utf8_wrong by simp

lemma sample_rejects_wrong:
  "createDecipheriv sample_crypto ALGORITHM (derived_key sample_crypto (js ''wrong'') salt') iv'
     (take 16 (derived_key sample_crypto (js ''pw'') salt')) encrypted = None"
  unfolding sample_decipher sample_key_pw sample_key_wrong by simp

lemma sample_encrypts:
  "createCipheriv sample_crypto ALGORITHM (derived_key sample_crypto pw (drawn_salt w)) (drawn_iv w) plaintext
     = Some (map (\<lambda>b. b + sample_mask (derived_key sample_crypto pw (drawn_salt w)) (drawn_iv w)) plaintext,
             take 16 (derived_key sample_crypto pw (drawn_salt w)))"
proof -
  have "length (derived_key sample_crypto pw (drawn_salt w)) = 32"
    by (rule library_sound_key [OF sample_crypto_sound])
  moreover have "drawn_iv w \<noteq> []" using length_drawn(2) [of w] by auto
  ultimately show ?thesis unfolding sample_cipher by (simp add: ALGORITHM_def)
qed

lemma b64_QUJD: "base64_decode (js ''QUJD'') = [0x41, 0x42, 0x43]"
  by (simp add: base64_decode_def sextets_def map_filter_simps unbase64_def low_byte_def js_def)

lemma class_QUJD: "list_all base64_class (js ''QUJD'')"
  by (simp add: base64_class_def js_def)

lemma parse_QUJD:
  "parseInPlaceEncrypted (GLYPH @ js ''QUJD'' @ GLYPH)
     = Some \<lparr>markerHint = None, combinedData = js ''QUJD''\<rparr>"
proof -
  have "parseInPlaceEncrypted ([] @ GLYPH @ js ''QUJD'' @ GLYPH @ [])
          = Some \<lparr>markerHint = None, combinedData = js ''QUJD''\<rparr>"
    by (rule parse_marker_nohint [OF _ class_QUJD]) (simp_all add: js_def)
  then show ?thesis by simp
qed

subsection \<open>The password cache\<close>

lemma getCacheKey_cache [simp]: "getCacheKey (s\<lparr>cache := c\<rparr>) folderOf filePath = getCacheKey s folderOf filePath"
  by (simp add: getCacheKey_def)

lemma put_active:
  "active s \<Longrightarrow> put s folderOf now ph filePath
     = s\<lparr>cache := fmupd (getCacheKey s folderOf filePath)
                       \<lparr>password = password ph, hint = hint ph, timestamp = now\<rparr> (cache s)\<rparr>"
  by (simp add: put_def)

lemma put_inactive: "\<not> active s \<Longrightarrow> put s folderOf now ph filePath = s"
  by (simp add: put_def)

lemma get_fresh:
  assumes "fmlookup (cache s) (getCacheKey s folderOf filePath) = Some entry"
    and "\<not> (timeout s > 0 \<and> now - timestamp entry > timeout s * 60 * 1000)"
  shows "get s folderOf now filePath = (\<lparr>password = password entry, hint = hint entry\<rparr>, s)"
  using assms by (auto simp: get_def Let_def)

lemma get_expired:
  assumes "fmlookup (cache s) (getCacheKey s folderOf filePath) = Some entry"
    and "timeout s > 0" "now - timestamp entry > timeout s * 60 * 1000"
  shows "get s folderOf now filePath = (\<lparr>password = [], hint = []\<rparr>, clearForFile s folderOf filePath)"
  using assms by (simp add: get_def Let_def clearForFile_def)

lemma get_absent:
  assumes "fmlookup (cache s) (getCacheKey s folderOf filePath) = None"
  shows "get s folderOf now filePath = (\<lparr>password = [], hint = []\<rparr>, s)"
  using assms by (simp add: get_def Let_def)

lemma has_eq:
  "has s folderOf now filePath =
     ((case fmlookup (cache s) (getCacheKey s folderOf filePath) of
         None \<Rightarrow> False
       | Some entry \<Rightarrow> \<not> (timeout s > 0 \<and> now - timestamp entry > timeout s * 60 * 1000)), s)"
  by (auto simp: has_def Let_def split: option.split)

lemma sweep_zero: "timeout s = 0 \<Longrightarrow> removeExpiredEntries s now = s"
  by (simp add: removeExpiredEntries_def)

lemma sweep_lookup:
  "timeout s \<noteq> 0 \<Longrightarrow> fmlookup (cache (removeExpiredEntries s now)) key =
     (case fmlookup (cache s) key of
        None \<Rightarrow> None
      | Some entry \<Rightarrow> if now - timestamp entry > timeout s * 60 * 1000 then None else Some entry)"
  by (simp add: removeExpiredEntries_def split: option.split)

lemma size_pos: "fmlookup (cache s) k = Some e \<Longrightarrow> 0 < size_cache s"
proof -
  assume "fmlookup (cache s) k = Some e"
  then have "k |\<in>| fmdom (cache s)" by (simp add: fmdomI)
  then show ?thesis unfolding size_cache_def
    by (metis fcard_fempty fcard_seteq fempty_iff less_nat_zero_code linorder_neqE_nat zero_le fsubsetI)
qed

lemma new_active: "active new_PasswordService" "timeout new_PasswordService = 30"
  by (simp_all add: new_PasswordService_def)

lemma new_zero: "active (new_PasswordService\<lparr>timeout := 0\<rparr>)" "timeout (new_PasswordService\<lparr>timeout := 0\<rparr>) = 0"
  by (simp_all add: new_PasswordService_def)

lemma new_inactive: "\<not> active (new_PasswordService\<lparr>active := False\<rparr>)"
  by simp

lemma sample_cache_entry:
  "fmlookup (cache sample_cache) (getCacheKey sample_cache no_folder (js ''/a/b.md''))
     = Some \<lparr>password = js ''pw'', hint = js ''h'', timestamp = 0\<rparr>"
  "timeout sample_cache = 1"
  "getCacheKey sample_cache no_folder (js ''/other.md'') = getCacheKey sample_cache no_folder (js ''/a/b.md'')"
  by (simp_all add: sample_cache_def new_PasswordService_def getCacheKey_def)

lemma sample_cache_zero:
  "fmlookup (cache (sample_cache\<lparr>timeout := 0\<rparr>))
       (getCacheKey (sample_cache\<lparr>timeout := 0\<rparr>) no_folder (js ''/a/b.md''))
     = Some \<lparr>password = js ''pw'', hint = js ''h'', timestamp = 0\<rparr>"
  "timeout (sample_cache\<lparr>timeout := 0\<rparr>) = 0"
  by (simp_all add: sample_cache_def new_PasswordService_def getCacheKey_def)

lemma parse_zero_blob:
  "parseInPlaceEncrypted (GLYPH @ base64_encode (replicate 48 0) @ GLYPH)
     = Some \<lparr>markerHint = None, combinedData = base64_encode (replicate 48 0)\<rparr>"
proof -
  have "parseInPlaceEncrypted ([] @ GLYPH @ base64_encode (replicate 48 0) @ GLYPH @ [])
          = Some \<lparr>markerHint = None, combinedData = base64_encode (replicate 48 0)\<rparr>"
    by (rule parse_marker_nohint [OF base64_encode_nonempty base64_encode_class]) simp_all
  then show ?thesis by simp
qed

subsection \<open>Markers made with the sample library\<close>

lemma sample_inplace:
  "encryptInPlace sample_crypto text' pw hint' showMarker w =
     (Some (marker_text hint' showMarker
              (base64_encode (drawn_salt w @ drawn_iv w
                 @ take 16 (derived_key sample_crypto pw (drawn_salt w))
                 @ map (\<lambda>b. b + sample_mask (derived_key sample_crypto pw (drawn_salt w)) (drawn_iv w))
                       (utf8_encode text')))),
      after_encrypt w)"
  unfolding encryptInPlace_eq sample_encrypts by simp

lemma length_sample_tag: "length (take 16 (derived_key sample_crypto pw salt')) = 16"
  using library_sound_key [OF sample_crypto_sound, of pw salt'] by simp

lemma parse_plain: "parseInPlaceEncrypted (js ''plain text'') = None"
  by (simp add: parseInPlaceEncrypted_def patterns_def with_hint_def without_hint_def
        hidden_with_hint_def hidden_without_hint_def js_def GLYPH_def)

lemma sample_inplace_wrong:
  "decryptInPlace sample_crypto
     (the (fst (encryptInPlace sample_crypto text' (js ''pw'') None showMarker w))) (js ''wrong'') w'
   = (None, after_decrypt w')"
proof -
  define T where "T = take 16 (derived_key sample_crypto (js ''pw'') (drawn_salt w))"
  define E where "E = map (\<lambda>b. b + sample_mask (derived_key sample_crypto (js ''pw'') (drawn_salt w)) (drawn_iv w))
                       (utf8_encode text')"
  define blob where "blob = drawn_salt w @ drawn_iv w @ T @ E"
  have len: "length T = 16" unfolding T_def by (rule length_sample_tag)
  have m: "the (fst (encryptInPlace sample_crypto text' (js ''pw'') None showMarker w))
             = marker_text None showMarker (base64_encode blob)"
    unfolding sample_inplace blob_def T_def E_def by simp
  have ne: "base64_encode blob \<noteq> []"
    unfolding blob_def by (rule base64_encode_nonempty [OF combined_nonempty])
  have p: "parseInPlaceEncrypted (marker_text None showMarker (base64_encode blob))
             = Some \<lparr>markerHint = None, combinedData = base64_encode blob\<rparr>"
    by (rule parse_marker_text_nohint [OF ne base64_encode_class]) simp
  have rej: "createDecipheriv sample_crypto ALGORITHM
               (derived_key sample_crypto (js ''wrong'') (drawn_salt w)) (drawn_iv w) T E = None"
    unfolding T_def by (rule sample_rejects_wrong)
  have "\<not> length blob < 48" using combined_split(1) [OF len, of w E] unfolding blob_def by simp
  then show ?thesis
    unfolding m decryptInPlace_eq [OF p]
    by (simp add: base64_roundtrip combined_split(2-5) [OF len, of w E, folded blob_def] rej)
qed

lemma sample_inplace_right:
  "decryptInPlace sample_crypto
     (the (fst (encryptInPlace sample_crypto text' pw None showMarker w))) pw w'
   = (Some (toWellFormed text'), after_decrypt w')"
  using inplace_roundtrip_general [OF sample_crypto_sound, of None text' pw showMarker w] by auto

lemma animal_hint: "js ''animal'' \<noteq> []" "list_all hint_class (js ''animal'')"
  by (simp_all add: js_def hint_class_def)

lemma marker_text_empty: "marker_text (Some []) showMarker d = marker_text None showMarker d"
  by (simp add: marker_text_def)

subsection \<open>Markers that do not parse\<close>

lemma base64_class_not: "base64_class u \<Longrightarrow> u \<noteq> 0xD83D \<and> u \<noteq> 0x25"
  by (auto simp: base64_class_def)

lemma exec_hidden_none:
  assumes "0x25 \<notin> set t"
  shows "exec hidden_with_hint t = None" "exec hidden_without_hint t = None"
proof -
  have h: "js ''%%'' @ GLYPH \<noteq> []" "hd (js ''%%'' @ GLYPH) = 0x25" by (simp_all add: js_pp)
  have "exec (Lit (js ''%%'' @ GLYPH) # r) (t @ []) = exec (Lit (js ''%%'' @ GLYPH) # r) []" for r
    by (rule exec_skip_hd [OF h(1)]) (simp add: h(2) assms)
  moreover have "exec (Lit (js ''%%'' @ GLYPH) # r) [] = None" for r
    by (simp add: js_def)
  ultimately show "exec hidden_with_hint t = None" "exec hidden_without_hint t = None"
    unfolding hidden_with_hint_def hidden_without_hint_def by simp_all
qed

lemma exec_glyph_only: "exec with_hint GLYPH = None" "exec without_hint GLYPH = None"
  by (simp_all add: with_hint_def without_hint_def GLYPH_def)

lemma exec_after_glyph:
  assumes "0xD83D \<notin> set body"
  shows "exec with_hint (0xDD10 # body @ GLYPH) = None" "exec without_hint (0xDD10 # body @ GLYPH) = None"
proof -
  have "exec (Lit GLYPH # r) ((0xDD10 # body) @ GLYPH) = exec (Lit GLYPH # r) GLYPH" for r
    by (rule exec_skip_hd) (simp_all add: glyph_hd assms)
  then show "exec with_hint (0xDD10 # body @ GLYPH) = None"
    "exec without_hint (0xDD10 # body @ GLYPH) = None"
    using exec_glyph_only unfolding with_hint_def without_hint_def by simp_all
qed

lemma parse_none:
  assumes "exec with_hint t = None" "exec without_hint t = None" "0x25 \<notin> set t"
  shows "parseInPlaceEncrypted t = None"
  unfolding parseInPlaceEncrypted_def patterns_def
  by (simp add: assms(1,2) exec_hidden_none [OF assms(3)])

lemma parse_colon_hint:
  assumes "list_all base64_class d"
  shows "parseInPlaceEncrypted (GLYPH @ js ''a:b'' @ js '':'' @ d @ GLYPH) = None"
proof -
  have nd: "0xD83D \<notin> set d" "0x25 \<notin> set d"
    using assms base64_class_not by (auto simp: list_all_iff)
  have t: "GLYPH @ js ''a:b'' @ js '':'' @ d @ GLYPH = 0xD83D # 0xDD10 # ([0x61, 0x3A, 0x62, 0x3A] @ d) @ GLYPH"
    by (simp add: GLYPH_def js_def)
  have m1: "match_at with_hint (0xD83D # 0xDD10 # ([0x61, 0x3A, 0x62, 0x3A] @ d) @ GLYPH) = None"
    by (simp add: with_hint_def GLYPH_def js_def hint_class_def base64_class_def)
  have m2: "match_at without_hint (0xD83D # 0xDD10 # ([0x61, 0x3A, 0x62, 0x3A] @ d) @ GLYPH) = None"
    by (simp add: without_hint_def GLYPH_def js_def base64_class_def)
  have b: "0xD83D \<notin> set ([0x61, 0x3A, 0x62, 0x3A] @ d)" using nd by simp
  show ?thesis unfolding t
  proof (rule parse_none)
    show "exec with_hint (0xD83D # 0xDD10 # ([0x61, 0x3A, 0x62, 0x3A] @ d) @ GLYPH) = None"
      using m1 exec_after_glyph(1) [OF b] by simp
    show "exec without_hint (0xD83D # 0xDD10 # ([0x61, 0x3A, 0x62, 0x3A] @ d) @ GLYPH) = None"
      using m2 exec_after_glyph(2) [OF b] by simp
    show "0x25 \<notin> set (0xD83D # 0xDD10 # ([0x61, 0x3A, 0x62, 0x3A] @ d) @ GLYPH)"
      using nd by (simp add: GLYPH_def)
  qed
qed

lemma parse_emoji_hint:
  assumes "list_all base64_class d"
  shows "parseInPlaceEncrypted (GLYPH @ [0xD83D, 0xDE00] @ js '':'' @ d @ GLYPH) = None"
proof -
  have nd: "0xD83D \<notin> set d" "0x25 \<notin> set d"
    using assms base64_class_not by (auto simp: list_all_iff)
  have t: "GLYPH @ [0xD83D, 0xDE00] @ js '':'' @ d @ GLYPH
             = 0xD83D # 0xDD10 # 0xD83D # 0xDE00 # ([0x3A] @ d) @ GLYPH"
    by (simp add: GLYPH_def js_def)
  have b: "0xD83D \<notin> set ([0x3A] @ d)" using nd by simp
  have e1: "exec (Lit GLYPH # r) (0xDE00 # ([0x3A] @ d) @ GLYPH) = exec (Lit GLYPH # r) GLYPH" for r
    using exec_skip_hd [of GLYPH "0xDE00 # [0x3A] @ d" r GLYPH] b by (simp add: glyph_hd)
  show ?thesis unfolding t
  proof (rule parse_none)
    show "exec with_hint (0xD83D # 0xDD10 # 0xD83D # 0xDE00 # ([0x3A] @ d) @ GLYPH) = None"
      using e1 [of "[Group hint_class, Lit (js '':''), Group base64_class, Lit GLYPH]"] exec_glyph_only(1)
      by (simp add: with_hint_def GLYPH_def hint_class_def)
    show "exec without_hint (0xD83D # 0xDD10 # 0xD83D # 0xDE00 # ([0x3A] @ d) @ GLYPH) = None"
      using e1 [of "[Group base64_class, Lit GLYPH]"] exec_glyph_only(2)
      by (simp add: without_hint_def GLYPH_def base64_class_def)
    show "0x25 \<notin> set (0xD83D # 0xDD10 # 0xD83D # 0xDE00 # ([0x3A] @ d) @ GLYPH)"
      using nd by (simp add: GLYPH_def)
  qed
qed

subsection \<open>Priority of the patterns\<close>

lemma exec_complete:
  "i \<le> length t \<Longrightarrow> match_at p (drop i t) = Some m \<Longrightarrow> exec p t \<noteq> None"
proof (induction t arbitrary: i)
  case Nil
  then show ?case by simp
next
  case (Cons u s)
  show ?case
  proof (cases "match_at p (u # s)")
    case (Some m')
    then show ?thesis by simp
  next
    case None
    with Cons.prems obtain j where j: "i = Suc j" by (cases i) auto
    with Cons.prems have "j \<le> length s" "match_at p (drop j s) = Some m" by simp_all
    from Cons.IH [OF this] None show ?thesis by simp
  qed
qed

lemma exec_with_hint_shape:
  assumes "exec with_hint t = Some caps"
  shows "\<exists>h d pre post. caps = [h, d] \<and> t = pre @ GLYPH @ h @ js '':'' @ d @ GLYPH @ post \<and>
           h \<noteq> [] \<and> list_all hint_class h \<and> d \<noteq> [] \<and> list_all base64_class d \<and>
           (\<forall>i < length pre. match_at with_hint (drop i t) = None)"
proof -
  from exec_sound [OF assms] obtain pre s' where t: "t = pre @ s'"
    and m: "match_at with_hint s' = Some caps"
    and l: "\<forall>i < length pre. match_at with_hint (drop i t) = None"
    by blast
  from match_at_sound [OF m] obtain m' post where sp: "spell with_hint caps = Some m'" and s': "s' = m' @ post"
    by blast
  from spell_with_hint [OF sp] obtain h d where
    c: "caps = [h, d]" "h \<noteq> []" "list_all hint_class h" "d \<noteq> []" "list_all base64_class d"
    and m': "m' = GLYPH @ h @ js '':'' @ d @ GLYPH" by blast
  have "t = pre @ GLYPH @ h @ js '':'' @ d @ GLYPH @ post" unfolding t s' m' by simp
  with c l show ?thesis by blast
qed

lemma exec_without_hint_shape:
  assumes "exec without_hint t = Some caps"
  shows "\<exists>d pre post. caps = [d] \<and> t = pre @ GLYPH @ d @ GLYPH @ post \<and>
           d \<noteq> [] \<and> list_all base64_class d \<and>
           (\<forall>i < length pre. match_at without_hint (drop i t) = None)"
proof -
  from exec_sound [OF assms] obtain pre s' where t: "t = pre @ s'"
    and m: "match_at without_hint s' = Some caps"
    and l: "\<forall>i < length pre. match_at without_hint (drop i t) = None"
    by blast
  from match_at_sound [OF m] obtain m' post where sp: "spell without_hint caps = Some m'" and s': "s' = m' @ post"
    by blast
  from spell_without_hint [OF sp] obtain d where
    c: "caps = [d]" "d \<noteq> []" "list_all base64_class d"
    and m': "m' = GLYPH @ d @ GLYPH" by blast
  have "t = pre @ GLYPH @ d @ GLYPH @ post" unfolding t s' m' by simp
  with c l show ?thesis by blast
qed

lemma spell_hidden_with_hint:
  assumes "spell hidden_with_hint caps = Some m"
  shows "\<exists>h d. caps = [h, d] \<and> h \<noteq> [] \<and> list_all hint_class h \<and> d \<noteq> [] \<and> list_all base64_class d
           \<and> m = js ''%%'' @ GLYPH @ h @ js '':'' @ d @ GLYPH @ js ''%%''"
proof (cases caps)
  case Nil
  with assms show ?thesis by (simp add: hidden_with_hint_def)
next
  case (Cons h r)
  show ?thesis
  proof (cases r)
    case Nil
    with Cons assms show ?thesis by (simp add: hidden_with_hint_def split: if_splits)
  next
    case (Cons d r')
    show ?thesis
    proof (cases r')
      case Nil
      with \<open>caps = h # r\<close> \<open>r = d # r'\<close> assms show ?thesis
        by (auto simp: hidden_with_hint_def split: if_splits)
    next
      case (Cons x r'')
      with \<open>caps = h # r\<close> \<open>r = d # r'\<close> assms show ?thesis
        by (simp add: hidden_with_hint_def split: if_splits)
    qed
  qed
qed

lemma spell_hidden_without_hint:
  assumes "spell hidden_without_hint caps = Some m"
  shows "\<exists>d. caps = [d] \<and> d \<noteq> [] \<and> list_all base64_class d \<and> m = js ''%%'' @ GLYPH @ d @ GLYPH @ js ''%%''"
proof (cases caps)
  case Nil
  with assms show ?thesis by (simp add: hidden_without_hint_def)
next
  case (Cons d r)
  show ?thesis
  proof (cases r)
    case Nil
    with Cons assms show ?thesis by (auto simp: hidden_without_hint_def split: if_splits)
  next
    case (Cons x r')
    with \<open>caps = d # r\<close> assms show ?thesis by (simp add: hidden_without_hint_def split: if_splits)
  qed
qed

lemma hidden_with_hint_visible:
  assumes "exec hidden_with_hint t = Some caps"
  shows "exec with_hint t \<noteq> None"
proof -
  from exec_sound [OF assms] obtain pre s' where t: "t = pre @ s'"
    and m: "match_at hidden_with_hint s' = Some caps" by blast
  from match_at_sound [OF m] obtain m' post where sp: "spell hidden_with_hint caps = Some m'"
    and s': "s' = m' @ post" by blast
  from spell_hidden_with_hint [OF sp] obtain h d where
    c: "h \<noteq> []" "list_all hint_class h" "d \<noteq> []" "list_all base64_class d"
    and m': "m' = js ''%%'' @ GLYPH @ h @ js '':'' @ d @ GLYPH @ js ''%%''" by blast
  have "t = (pre @ js ''%%'') @ GLYPH @ h @ js '':'' @ d @ GLYPH @ (js ''%%'' @ post)"
    unfolding t s' m' by simp
  then have d: "drop (length (pre @ js ''%%'')) t = GLYPH @ h @ js '':'' @ d @ GLYPH @ (js ''%%'' @ post)"
    by (metis append_eq_conv_conj)
  have "length (pre @ js ''%%'') \<le> length t" unfolding t s' m' by simp
  from exec_complete [OF this] d match_with_hint [OF c] show ?thesis by simp
qed

lemma hidden_without_hint_visible:
  assumes "exec hidden_without_hint t = Some caps"
  shows "exec without_hint t \<noteq> None"
proof -
  from exec_sound [OF assms] obtain pre s' where t: "t = pre @ s'"
    and m: "match_at hidden_without_hint s' = Some caps" by blast
  from match_at_sound [OF m] obtain m' post where sp: "spell hidden_without_hint caps = Some m'"
    and s': "s' = m' @ post" by blast
  from spell_hidden_without_hint [OF sp] obtain d where
    c: "d \<noteq> []" "list_all base64_class d"
    and m': "m' = js ''%%'' @ GLYPH @ d @ GLYPH @ js ''%%''" by blast
  have "t = (pre @ js ''%%'') @ GLYPH @ d @ GLYPH @ (js ''%%'' @ post)"
    unfolding t s' m' by simp
  then have d: "drop (length (pre @ js ''%%'')) t = GLYPH @ d @ GLYPH @ (js ''%%'' @ post)"
    by (metis append_eq_conv_conj)
  have "length (pre @ js ''%%'') \<le> length t" unfolding t s' m' by simp
  from exec_complete [OF this] d match_without_hint [OF c] show ?thesis by simp
qed

lemma parse_eq:
  "parseInPlaceEncrypted t =
     (case exec with_hint t of
        Some caps \<Rightarrow> Some \<lparr>markerHint = Some (caps ! 0), combinedData = caps ! 1\<rparr>
      | None \<Rightarrow>
          (case exec without_hint t of
             Some caps \<Rightarrow> Some \<lparr>markerHint = None, combinedData = caps ! 0\<rparr>
           | None \<Rightarrow> None))"
proof (cases "exec with_hint t")
  case (Some caps)
  from exec_with_hint_shape [OF this] obtain h d where "caps = [h, d]" by blast
  with Some show ?thesis by (simp add: parseInPlaceEncrypted_def patterns_def)
next
  case None
  note n1 = this
  show ?thesis
  proof (cases "exec without_hint t")
    case (Some caps)
    from exec_without_hint_shape [OF this] obtain d where "caps = [d]" by blast
    with Some n1 show ?thesis by (simp add: parseInPlaceEncrypted_def patterns_def)
  next
    case None
    have "exec hidden_with_hint t = None"
      using hidden_with_hint_visible [of t] n1 by (cases "exec hidden_with_hint t") auto
    moreover have "exec hidden_without_hint t = None"
      using hidden_without_hint_visible [of t] None by (cases "exec hidden_without_hint t") auto
    ultimately show ?thesis using n1 None by (simp add: parseInPlaceEncrypted_def patterns_def)
  qed
qed

lemma two_markers_parse:
  "parseInPlaceEncrypted two_markers = Some \<lparr>markerHint = Some (js ''h''), combinedData = js ''REVG''\<rparr>"
  by (simp add: two_markers_def parseInPlaceEncrypted_def patterns_def with_hint_def js_def GLYPH_def
        hint_class_def base64_class_def first_some_numeral first_some_Suc0)

lemma two_markers_exec:
  "exec with_hint two_markers = Some [js ''h'', js ''REVG'']"
  by (simp add: two_markers_def with_hint_def js_def GLYPH_def
        hint_class_def base64_class_def first_some_numeral first_some_Suc0)

lemma two_markers_first:
  "match_at without_hint two_markers = Some [js ''QUJD'']"
  by (simp add: two_markers_def without_hint_def js_def GLYPH_def
        base64_class_def first_some_numeral first_some_Suc0)

lemma exec_QUJD:
  "exec with_hint (GLYPH @ js ''QUJD'' @ GLYPH) = None"
  "exec without_hint (GLYPH @ js ''QUJD'' @ GLYPH) = Some [js ''QUJD'']"
  by (simp_all add: with_hint_def without_hint_def js_def GLYPH_def
        hint_class_def base64_class_def first_some_numeral first_some_Suc0)

lemma exec_plain:
  "exec with_hint (js ''plain text'') = None" "exec without_hint (js ''plain text'') = None"
  by (simp_all add: with_hint_def without_hint_def js_def GLYPH_def)

lemma hidden_QUJD:
  "exec hidden_without_hint (js ''%%'' @ GLYPH @ js ''QUJD'' @ GLYPH @ js ''%%'') = Some [js ''QUJD'']"
  "exec without_hint (js ''%%'' @ GLYPH @ js ''QUJD'' @ GLYPH @ js ''%%'') = Some [js ''QUJD'']"
  by (simp_all add: hidden_without_hint_def without_hint_def js_def GLYPH_def
        base64_class_def first_some_numeral first_some_Suc0)

lemma hidden_REVG:
  "exec hidden_with_hint (js ''%%'' @ GLYPH @ js ''h:REVG'' @ GLYPH @ js ''%%'') = Some [js ''h'', js ''REVG'']"
  "exec with_hint (js ''%%'' @ GLYPH @ js ''h:REVG'' @ GLYPH @ js ''%%'') = Some [js ''h'', js ''REVG'']"
  by (simp_all add: hidden_with_hint_def with_hint_def js_def GLYPH_def
        hint_class_def base64_class_def first_some_numeral first_some_Suc0)


section \<open>The claims about the encryption service\<close>

text \<open>
  C1 (amended): provided the library is sound (\<open>library_sound\<close>: key derivation returns
  the requested number of bytes and AES-256-GCM decrypts its own output), for every plaintext
  P, password W and optional hint h, \<open>encryptFileContent\<close> returns an envelope with version
  \<open>1.0\<close> and hint h, and decrypting it with W succeeds and returns P with each unpaired
  surrogate replaced by U+FFFD; hence it returns exactly P for every P without unpaired
  surrogates.
\<close>

theorem file_roundtrip_wellformed:
  assumes "library_sound lib"
  shows "\<exists>fileData w'. encryptFileContent lib content pw hint' w = (Some fileData, w') \<and>
           version fileData = js ''1.0'' \<and> hint_opt fileData = hint' \<and>
           (\<forall>w''. fst (decryptFileData lib fileData pw w'') = Some (toWellFormed content)) \<and>
           (isWellFormed content \<longrightarrow>
              (\<forall>w''. fst (decryptFileData lib fileData pw w'') = Some content))"
proof -
  obtain fileData where
    e: "encryptFileContent lib content pw hint' w = (Some fileData, after_encrypt w)"
    and v: "version fileData = js ''1.0''" "hint_opt fileData = hint'"
    and d: "\<And>v w'. decryptFileData lib (fileData\<lparr>version := v\<rparr>) pw w'
                     = (Some (toWellFormed content), after_decrypt w')"
    using file_roundtrip [OF assms, of content pw hint' w] by blast
  have r: "fst (decryptFileData lib fileData pw w'') = Some (toWellFormed content)" for w''
    using d [of "version fileData" w''] by simp
  have "isWellFormed content \<longrightarrow> (\<forall>w''. fst (decryptFileData lib fileData pw w'') = Some content)"
    using r toWellFormed_id [of content] by simp
  with e v r show ?thesis by blast
qed

theorem file_roundtrip_wellformed_witness:
  "library_sound sample_crypto \<and> isWellFormed (js ''hello'') \<and>
   (\<exists>fileData w'. encryptFileContent sample_crypto (js ''hello'') (js ''correct-horse'')
                     (Some (js ''animal'')) sample_world = (Some fileData, w') \<and>
           (\<forall>w''. fst (decryptFileData sample_crypto fileData (js ''correct-horse'') w'')
                    = Some (js ''hello'')))"
proof -
  from file_roundtrip_wellformed [OF sample_crypto_sound, where content = "js ''hello''"
      and pw = "js ''correct-horse''" and hint' = "Some (js ''animal'')" and w = sample_world]
  obtain fileData w' where
    "encryptFileContent sample_crypto (js ''hello'') (js ''correct-horse'')
       (Some (js ''animal'')) sample_world = (Some fileData, w')"
    "isWellFormed (js ''hello'') \<longrightarrow>
       (\<forall>w''. fst (decryptFileData sample_crypto fileData (js ''correct-horse'') w'')
                = Some (js ''hello''))"
    by blast
  with sample_crypto_sound wf_hello show ?thesis by blast
qed

text \<open>
  C1, as stated for every string, fails on a plaintext with an unpaired surrogate: the
  plaintext is encrypted as UTF-8, where U+D800 is written as U+FFFD, and U+FFFD is what
  decryption returns.
\<close>

theorem unpaired_surrogate_counterexample:
  "fst (decryptFileData sample_crypto
          (the (fst (encryptFileContent sample_crypto [0xD800] (js ''pw'') None sample_world)))
          (js ''pw'') sample_world) = Some [0xFFFD] \<and>
   fst (decryptFileData sample_crypto
          (the (fst (encryptFileContent sample_crypto [0xD800] (js ''pw'') None sample_world)))
          (js ''pw'') sample_world) \<noteq> Some [0xD800]"
proof -
  have "decryptFileData sample_crypto
          ((the (fst (encryptFileContent sample_crypto [0xD800] (js ''pw'') None sample_world)))
             \<lparr>version := js ''1.0''\<rparr>)
          (js ''pw'') sample_world = (Some (toWellFormed [0xD800]), after_decrypt sample_world)"
    using sample_file_roundtrip by blast
  moreover have "version (the (fst (encryptFileContent sample_crypto [0xD800] (js ''pw'') None sample_world))) = js ''1.0''"
    using file_roundtrip [OF sample_crypto_sound, of "[0xD800]" "js ''pw''" None sample_world] by auto
  ultimately show ?thesis
    by (simp add: decryptFileData_def is_surrogate_def)
qed




text \<open>
  C3 (amended): the decrypt operations report every failure by the one outcome null, so the
  caller cannot tell an authentication failure from a structural one. \<open>decryptInPlace\<close>
  returns null exactly when no marker is found, or the decoded blob is shorter than 48
  bytes, or the library rejects (failed tag verification or any other exception);
  \<open>decryptFileData\<close> returns null exactly when the library rejects.
\<close>

theorem failures_share_null:
  "(fst (decryptInPlace lib t pw w) = None \<longleftrightarrow>
      (case parseInPlaceEncrypted t of
         None \<Rightarrow> True
       | Some p \<Rightarrow>
           length (base64_decode (combinedData p)) < 48 \<or>
           createDecipheriv lib ALGORITHM
             (pbkdf2Sync lib (utf8_encode pw) (take 16 (base64_decode (combinedData p)))
                ITERATIONS KEY_LENGTH ''sha512'')
             (take 16 (drop 16 (base64_decode (combinedData p))))
             (take 16 (drop 32 (base64_decode (combinedData p))))
             (drop 48 (base64_decode (combinedData p))) = None)) \<and>
   (fst (decryptFileData lib fileData pw w) = None \<longleftrightarrow>
      createDecipheriv lib ALGORITHM
        (pbkdf2Sync lib (utf8_encode pw) (base64_decode (salt fileData))
           ITERATIONS KEY_LENGTH ''sha512'')
        (base64_decode (iv fileData)) (base64_decode (authTag fileData))
        (base64_decode (ciphertext fileData)) = None)"
proof -
  have a: "fst (decryptFileData lib fileData pw w) = None \<longleftrightarrow>
      createDecipheriv lib ALGORITHM
        (pbkdf2Sync lib (utf8_encode pw) (base64_decode (salt fileData))
           ITERATIONS KEY_LENGTH ''sha512'')
        (base64_decode (iv fileData)) (base64_decode (authTag fileData))
        (base64_decode (ciphertext fileData)) = None"
    by (simp add: decryptFileData_def decryptFromBase64_def deriveKey_def Let_def split: option.split)
  have b: "fst (decryptInPlace lib t pw w) = None \<longleftrightarrow>
      (case parseInPlaceEncrypted t of
         None \<Rightarrow> True
       | Some p \<Rightarrow>
           length (base64_decode (combinedData p)) < 48 \<or>
           createDecipheriv lib ALGORITHM
             (pbkdf2Sync lib (utf8_encode pw) (take 16 (base64_decode (combinedData p)))
                ITERATIONS KEY_LENGTH ''sha512'')
             (take 16 (drop 16 (base64_decode (combinedData p))))
             (take 16 (drop 32 (base64_decode (combinedData p))))
             (drop 48 (base64_decode (combinedData p))) = None)"
  proof (cases "parseInPlaceEncrypted t")
    case None
    then show ?thesis by (simp add: decryptInPlace_no_marker)
  next
    case (Some p)
    show ?thesis unfolding decryptInPlace_eq [OF Some] Some
      by (simp add: derived_key_def ITERATIONS_def KEY_LENGTH_def)
  qed
  show ?thesis using a b by blast
qed

text \<open>
  C3, as stated, fails: a text without a marker (a structural failure) and a well-formed
  marker decrypted with the wrong password (an authentication failure; the same marker
  decrypts with the right password) have the same outcome.
\<close>

theorem failure_classes_counterexample:
  "parseInPlaceEncrypted (js ''plain text'') = None \<and>
   fst (decryptInPlace sample_crypto (js ''plain text'') (js ''wrong'') sample_world) = None \<and>
   fst (decryptInPlace sample_crypto
          (the (fst (encryptInPlace sample_crypto (js ''hello'') (js ''pw'') None True sample_world)))
          (js ''pw'') sample_world) = Some (js ''hello'') \<and>
   fst (decryptInPlace sample_crypto
          (the (fst (encryptInPlace sample_crypto (js ''hello'') (js ''pw'') None True sample_world)))
          (js ''wrong'') sample_world) = None \<and>
   fst (decryptInPlace sample_crypto (js ''plain text'') (js ''wrong'') sample_world)
     = fst (decryptInPlace sample_crypto
          (the (fst (encryptInPlace sample_crypto (js ''hello'') (js ''pw'') None True sample_world)))
          (js ''wrong'') sample_world)"
  by (simp add: parse_plain decryptInPlace_no_marker sample_inplace_wrong sample_inplace_right
        toWellFormed_id [OF wf_hello])

text \<open>
  C4 (amended): \<open>decryptFileData\<close> does not read the version field: for every envelope,
  password and value v, the envelope with its version replaced by v is decrypted exactly as
  the envelope itself. So, provided the library is sound, the envelope produced by
  \<open>encryptFileContent\<close> for a plaintext P, with its version replaced by any v, still decrypts
  under the right password to P (unpaired surrogates replaced by U+FFFD).
\<close>

theorem version_not_inspected:
  "decryptFileData lib (fileData\<lparr>version := v\<rparr>) pw w = decryptFileData lib fileData pw w \<and>
   (library_sound lib \<longrightarrow>
      (\<exists>produced w'. encryptFileContent lib content pw hint' w = (Some produced, w') \<and>
          (\<forall>v w''. fst (decryptFileData lib (produced\<lparr>version := v\<rparr>) pw w'')
                     = Some (toWellFormed content))))"
proof (intro conjI impI)
  show "decryptFileData lib (fileData\<lparr>version := v\<rparr>) pw w = decryptFileData lib fileData pw w"
    by (simp add: decryptFileData_def)
next
  assume "library_sound lib"
  from file_roundtrip [OF this, of content pw hint' w]
  obtain produced where
    "encryptFileContent lib content pw hint' w = (Some produced, after_encrypt w)"
    "\<And>v w'. decryptFileData lib (produced\<lparr>version := v\<rparr>) pw w'
              = (Some (toWellFormed content), after_decrypt w')"
    by blast
  then have "encryptFileContent lib content pw hint' w = (Some produced, after_encrypt w) \<and>
          (\<forall>v w''. fst (decryptFileData lib (produced\<lparr>version := v\<rparr>) pw w'')
                     = Some (toWellFormed content))"
    by simp
  then show "\<exists>produced w'. encryptFileContent lib content pw hint' w = (Some produced, w') \<and>
          (\<forall>v w''. fst (decryptFileData lib (produced\<lparr>version := v\<rparr>) pw w'')
                     = Some (toWellFormed content))"
    by blast
qed

theorem version_not_inspected_witness:
  "library_sound sample_crypto \<and>
   (\<exists>produced w'. encryptFileContent sample_crypto (js ''hello'') (js ''pw'') None sample_world
                    = (Some produced, w') \<and>
        (\<forall>v w''. fst (decryptFileData sample_crypto (produced\<lparr>version := v\<rparr>) (js ''pw'') w'')
                   = Some (js ''hello'')))"
  using sample_crypto_sound
    version_not_inspected [where lib = sample_crypto and content = "js ''hello''"
      and pw = "js ''pw''" and hint' = None and w = sample_world]
  by (simp add: toWellFormed_id [OF wf_hello])

text \<open>
  C4, as stated, fails: an envelope with version \<open>2.0\<close> is decrypted, and its plaintext
  released, under the right password.
\<close>

theorem unknown_version_counterexample:
  "js ''2.0'' \<noteq> js ''1.0'' \<and>
   fst (decryptFileData sample_crypto
          ((the (fst (encryptFileContent sample_crypto (js ''hello'') (js ''pw'') None sample_world)))
             \<lparr>version := js ''2.0''\<rparr>)
          (js ''pw'') sample_world) = Some (js ''hello'')"
proof -
  have "js ''2.0'' \<noteq> js ''1.0''" by (simp add: js_def)
  moreover have "decryptFileData sample_crypto
          ((the (fst (encryptFileContent sample_crypto (js ''hello'') (js ''pw'') None sample_world)))
             \<lparr>version := js ''2.0''\<rparr>)
          (js ''pw'') sample_world = (Some (toWellFormed (js ''hello'')), after_decrypt sample_world)"
    using sample_file_roundtrip by blast
  ultimately show ?thesis by (simp add: toWellFormed_id [OF wf_hello])
qed

text \<open>
  C5 (amended): provided the library is sound, for every text without unpaired surrogates,
  every password, both modes, and every hint that is either absent or a non-empty string
  containing neither the colon nor one of the two code units of the glyph (U+D83D, U+DD10):
  \<open>encryptInPlace\<close> returns a marker, \<open>parseInPlaceEncrypted\<close> of the marker returns the
  hint, and \<open>decryptInPlace\<close> of the marker with the password returns the text.
\<close>

theorem inplace_roundtrip:
  assumes "library_sound lib"
    and "hint' = None \<or> (\<exists>h. hint' = Some h \<and> h \<noteq> [] \<and> list_all hint_class h)"
    and "isWellFormed text'"
  shows "\<exists>marker w'. encryptInPlace lib text' pw hint' showMarker w = (Some marker, w') \<and>
           (\<exists>p. parseInPlaceEncrypted marker = Some p \<and> markerHint p = hint') \<and>
           (\<forall>w''. fst (decryptInPlace lib marker pw w'') = Some text')"
proof -
  have h: "hint' = None \<or> hint' = Some [] \<or> (\<exists>h. hint' = Some h \<and> list_all hint_class h)"
    using assms(2) by auto
  have n: "hint' \<noteq> Some []" using assms(2) by auto
  from inplace_roundtrip_general [OF assms(1) h, of text' pw showMarker w]
  obtain marker d where
    e: "encryptInPlace lib text' pw hint' showMarker w = (Some marker, after_encrypt w)"
    and p: "parseInPlaceEncrypted marker
              = Some \<lparr>markerHint = (if hint' = Some [] then None else hint'), combinedData = d\<rparr>"
    and r: "\<And>w'. decryptInPlace lib marker pw w' = (Some (toWellFormed text'), after_decrypt w')"
    by blast
  have "\<exists>p. parseInPlaceEncrypted marker = Some p \<and> markerHint p = hint'"
    using p n by simp
  moreover have "\<forall>w''. fst (decryptInPlace lib marker pw w'') = Some text'"
    using r toWellFormed_id [OF assms(3)] by simp
  ultimately show ?thesis using e by blast
qed

theorem inplace_roundtrip_witness:
  "library_sound sample_crypto \<and>
   js ''animal'' \<noteq> [] \<and> list_all hint_class (js ''animal'') \<and> isWellFormed (js ''hello'') \<and>
   (\<exists>marker w'. encryptInPlace sample_crypto (js ''hello'') (js ''pw'') (Some (js ''animal'')) False
                   sample_world = (Some marker, w') \<and>
        (\<exists>p. parseInPlaceEncrypted marker = Some p \<and> markerHint p = Some (js ''animal'')) \<and>
        (\<forall>w''. fst (decryptInPlace sample_crypto marker (js ''pw'') w'') = Some (js ''hello'')))"
proof -
  have h: "Some (js ''animal'') = None \<or>
           (\<exists>h. Some (js ''animal'') = Some h \<and> h \<noteq> [] \<and> list_all hint_class h)"
    using animal_hint by simp
  show ?thesis
    using sample_crypto_sound animal_hint wf_hello
      inplace_roundtrip [OF sample_crypto_sound h wf_hello, of "js ''pw''" False sample_world]
    by simp
qed

text \<open>
  C5, as stated for every hint and text, fails in four ways: the marker made with the hint
  \<open>a:b\<close> does not parse; nor does the marker made with a hint containing the code unit U+D83D
  (here the emoji U+1F600); the empty hint comes back as an absent hint; and a text that is an
  unpaired surrogate comes back as U+FFFD.
\<close>

theorem inplace_hint_counterexample:
  "parseInPlaceEncrypted
     (the (fst (encryptInPlace sample_crypto (js ''hello'') (js ''pw'') (Some (js ''a:b'')) True sample_world)))
     = None \<and>
   parseInPlaceEncrypted
     (the (fst (encryptInPlace sample_crypto (js ''hello'') (js ''pw'') (Some [0xD83D, 0xDE00]) True sample_world)))
     = None \<and>
   map_option markerHint (parseInPlaceEncrypted
     (the (fst (encryptInPlace sample_crypto (js ''hello'') (js ''pw'') (Some []) True sample_world))))
     = Some None \<and>
   fst (decryptInPlace sample_crypto
          (the (fst (encryptInPlace sample_crypto [0xD800] (js ''pw'') None True sample_world)))
          (js ''pw'') sample_world) = Some [0xFFFD]"
proof -
  have a: "parseInPlaceEncrypted
     (the (fst (encryptInPlace sample_crypto (js ''hello'') (js ''pw'') (Some (js ''a:b'')) True sample_world)))
     = None"
    unfolding sample_inplace
    using parse_colon_hint [OF base64_encode_class]
    by (simp add: marker_text_def js_def)
  have b: "parseInPlaceEncrypted
     (the (fst (encryptInPlace sample_crypto (js ''hello'') (js ''pw'') (Some [0xD83D, 0xDE00]) True sample_world)))
     = None"
    unfolding sample_inplace
    using parse_emoji_hint [OF base64_encode_class]
    by (simp add: marker_text_def)
  have c: "map_option markerHint (parseInPlaceEncrypted
     (the (fst (encryptInPlace sample_crypto (js ''hello'') (js ''pw'') (Some []) True sample_world))))
     = Some None"
    unfolding sample_inplace
    by (simp add: parse_marker_text_nohint [OF base64_encode_nonempty [OF combined_nonempty]
                    base64_encode_class])
  have d: "fst (decryptInPlace sample_crypto
          (the (fst (encryptInPlace sample_crypto [0xD800] (js ''pw'') None True sample_world)))
          (js ''pw'') sample_world) = Some [0xFFFD]"
    unfolding sample_inplace_right by (simp add: is_surrogate_def)
  show ?thesis using a b c d by blast
qed

text \<open>
  C6 (amended): decoding tries the shapes in the order with-hint, without-hint,
  hidden-with-hint, hidden-without-hint, and returns the leftmost match of the first shape
  that matches anywhere in the text. So a with-hint match anywhere decides; otherwise a
  without-hint match decides; otherwise the result is null: the hidden shapes never decide,
  since wherever a hidden shape matches, the visible shape of the same kind matches too.
  When a hint is returned, the text is \<open>pre\<close>, glyph, hint, colon, data, glyph, \<open>post\<close>,
  where the with-hint shape matches at no position inside \<open>pre\<close>: the hint is exactly the
  substring between that opening glyph and the delimiter. When no hint is returned, the text is \<open>pre\<close>, glyph, data, glyph, \<open>post\<close>,
  with the without-hint shape matching at no position inside \<open>pre\<close>.
\<close>

theorem decode_priority:
  "(\<forall>h d. exec with_hint t = Some [h, d] \<longrightarrow>
       parseInPlaceEncrypted t = Some \<lparr>markerHint = Some h, combinedData = d\<rparr>) \<and>
   (\<forall>d. exec with_hint t = None \<and> exec without_hint t = Some [d] \<longrightarrow>
       parseInPlaceEncrypted t = Some \<lparr>markerHint = None, combinedData = d\<rparr>) \<and>
   (exec with_hint t = None \<and> exec without_hint t = None \<longrightarrow> parseInPlaceEncrypted t = None) \<and>
   (\<forall>p h. parseInPlaceEncrypted t = Some p \<and> markerHint p = Some h \<longrightarrow>
       (\<exists>pre post. t = pre @ GLYPH @ h @ js '':'' @ combinedData p @ GLYPH @ post \<and>
           h \<noteq> [] \<and> list_all hint_class h \<and>
           combinedData p \<noteq> [] \<and> list_all base64_class (combinedData p) \<and>
           (\<forall>i < length pre. match_at with_hint (drop i t) = None))) \<and>
   (\<forall>p. parseInPlaceEncrypted t = Some p \<and> markerHint p = None \<longrightarrow>
       exec with_hint t = None \<and>
       (\<exists>pre post. t = pre @ GLYPH @ combinedData p @ GLYPH @ post \<and>
           combinedData p \<noteq> [] \<and> list_all base64_class (combinedData p) \<and>
           (\<forall>i < length pre. match_at without_hint (drop i t) = None))) \<and>
   (exec hidden_with_hint t \<noteq> None \<longrightarrow> exec with_hint t \<noteq> None) \<and>
   (exec hidden_without_hint t \<noteq> None \<longrightarrow> exec without_hint t \<noteq> None)"
proof (intro conjI allI impI)
  fix h d assume "exec with_hint t = Some [h, d]"
  then show "parseInPlaceEncrypted t = Some \<lparr>markerHint = Some h, combinedData = d\<rparr>"
    by (simp add: parse_eq)
next
  fix d assume "exec with_hint t = None \<and> exec without_hint t = Some [d]"
  then show "parseInPlaceEncrypted t = Some \<lparr>markerHint = None, combinedData = d\<rparr>"
    by (simp add: parse_eq)
next
  assume "exec with_hint t = None \<and> exec without_hint t = None"
  then show "parseInPlaceEncrypted t = None" by (simp add: parse_eq)
next
  fix p h assume a: "parseInPlaceEncrypted t = Some p \<and> markerHint p = Some h"
  show "\<exists>pre post. t = pre @ GLYPH @ h @ js '':'' @ combinedData p @ GLYPH @ post \<and>
           h \<noteq> [] \<and> list_all hint_class h \<and>
           combinedData p \<noteq> [] \<and> list_all base64_class (combinedData p) \<and>
           (\<forall>i < length pre. match_at with_hint (drop i t) = None)"
  proof (cases "exec with_hint t")
    case None
    with a show ?thesis by (auto simp: parse_eq split: option.splits)
  next
    case (Some caps)
    from exec_with_hint_shape [OF Some] obtain h' d pre post where
      s: "caps = [h', d]" "t = pre @ GLYPH @ h' @ js '':'' @ d @ GLYPH @ post"
         "h' \<noteq> []" "list_all hint_class h'" "d \<noteq> []" "list_all base64_class d"
         "\<forall>i < length pre. match_at with_hint (drop i t) = None"
      by blast
    have "p = \<lparr>markerHint = Some h', combinedData = d\<rparr>"
      using a Some s(1) by (simp add: parse_eq)
    with a have "h = h'" "combinedData p = d" by simp_all
    with s show ?thesis by blast
  qed
next
  fix p assume a: "parseInPlaceEncrypted t = Some p \<and> markerHint p = None"
  show n: "exec with_hint t = None"
    using a by (cases "exec with_hint t") (auto simp: parse_eq)
  show "\<exists>pre post. t = pre @ GLYPH @ combinedData p @ GLYPH @ post \<and>
           combinedData p \<noteq> [] \<and> list_all base64_class (combinedData p) \<and>
           (\<forall>i < length pre. match_at without_hint (drop i t) = None)"
  proof (cases "exec without_hint t")
    case None
    with a n show ?thesis by (simp add: parse_eq)
  next
    case (Some caps)
    from exec_without_hint_shape [OF Some] obtain d pre post where
      s: "caps = [d]" "t = pre @ GLYPH @ d @ GLYPH @ post"
         "d \<noteq> []" "list_all base64_class d"
         "\<forall>i < length pre. match_at without_hint (drop i t) = None"
      by blast
    have "p = \<lparr>markerHint = None, combinedData = d\<rparr>"
      using a Some n s(1) by (simp add: parse_eq)
    then have "combinedData p = d" by simp
    with s show ?thesis by blast
  qed
next
  assume "exec hidden_with_hint t \<noteq> None"
  then show "exec with_hint t \<noteq> None" using hidden_with_hint_visible by blast
next
  assume "exec hidden_without_hint t \<noteq> None"
  then show "exec without_hint t \<noteq> None" using hidden_without_hint_visible by blast
qed

theorem decode_priority_witness:
  "exec with_hint two_markers = Some [js ''h'', js ''REVG''] \<and>
   parseInPlaceEncrypted two_markers = Some \<lparr>markerHint = Some (js ''h''), combinedData = js ''REVG''\<rparr> \<and>
   (\<exists>pre post. two_markers = pre @ GLYPH @ js ''h'' @ js '':'' @ js ''REVG'' @ GLYPH @ post) \<and>
   exec with_hint (GLYPH @ js ''QUJD'' @ GLYPH) = None \<and>
   exec without_hint (GLYPH @ js ''QUJD'' @ GLYPH) = Some [js ''QUJD''] \<and>
   parseInPlaceEncrypted (GLYPH @ js ''QUJD'' @ GLYPH)
     = Some \<lparr>markerHint = None, combinedData = js ''QUJD''\<rparr> \<and>
   (\<exists>pre post. GLYPH @ js ''QUJD'' @ GLYPH = pre @ GLYPH @ js ''QUJD'' @ GLYPH @ post) \<and>
   exec with_hint (js ''plain text'') = None \<and> exec without_hint (js ''plain text'') = None \<and>
   parseInPlaceEncrypted (js ''plain text'') = None \<and>
   exec hidden_with_hint (js ''%%'' @ GLYPH @ js ''h:REVG'' @ GLYPH @ js ''%%'') \<noteq> None \<and>
   exec with_hint (js ''%%'' @ GLYPH @ js ''h:REVG'' @ GLYPH @ js ''%%'') \<noteq> None \<and>
   exec hidden_without_hint (js ''%%'' @ GLYPH @ js ''QUJD'' @ GLYPH @ js ''%%'') \<noteq> None \<and>
   exec without_hint (js ''%%'' @ GLYPH @ js ''QUJD'' @ GLYPH @ js ''%%'') \<noteq> None"
proof -
  note a = decode_priority [of two_markers]
  note b = decode_priority [of "GLYPH @ js ''QUJD'' @ GLYPH"]
  note c = decode_priority [of "js ''plain text''"]
  note d = decode_priority [of "js ''%%'' @ GLYPH @ js ''h:REVG'' @ GLYPH @ js ''%%''"]
  note e = decode_priority [of "js ''%%'' @ GLYPH @ js ''QUJD'' @ GLYPH @ js ''%%''"]
  have a1: "parseInPlaceEncrypted two_markers = Some \<lparr>markerHint = Some (js ''h''), combinedData = js ''REVG''\<rparr>"
    using a two_markers_exec by blast
  have a2: "\<exists>pre post. two_markers = pre @ GLYPH @ js ''h'' @ js '':'' @ js ''REVG'' @ GLYPH @ post"
    using a [THEN conjunct2, THEN conjunct2, THEN conjunct2, THEN conjunct1, rule_format,
             of "\<lparr>markerHint = Some (js ''h''), combinedData = js ''REVG''\<rparr>" "js ''h''"] a1
    by auto
  have b1: "parseInPlaceEncrypted (GLYPH @ js ''QUJD'' @ GLYPH)
     = Some \<lparr>markerHint = None, combinedData = js ''QUJD''\<rparr>"
    using b exec_QUJD by blast
  have b2: "\<exists>pre post. GLYPH @ js ''QUJD'' @ GLYPH = pre @ GLYPH @ js ''QUJD'' @ GLYPH @ post"
    using b [THEN conjunct2, THEN conjunct2, THEN conjunct2, THEN conjunct2, THEN conjunct1, rule_format,
             of "\<lparr>markerHint = None, combinedData = js ''QUJD''\<rparr>"] b1
    by auto
  have c1: "parseInPlaceEncrypted (js ''plain text'') = None"
    using c exec_plain by blast
  have d0: "exec hidden_with_hint (js ''%%'' @ GLYPH @ js ''h:REVG'' @ GLYPH @ js ''%%'') \<noteq> None"
    using hidden_REVG(1) by simp
  have d1: "exec with_hint (js ''%%'' @ GLYPH @ js ''h:REVG'' @ GLYPH @ js ''%%'') \<noteq> None"
    using d d0 by blast
  have e0: "exec hidden_without_hint (js ''%%'' @ GLYPH @ js ''QUJD'' @ GLYPH @ js ''%%'') \<noteq> None"
    using hidden_QUJD(1) by simp
  have e1: "exec without_hint (js ''%%'' @ GLYPH @ js ''QUJD'' @ GLYPH @ js ''%%'') \<noteq> None"
    using e e0 by blast
  show ?thesis using two_markers_exec a1 a2 exec_QUJD b1 b2 exec_plain c1 d0 d1 e0 e1 by blast
qed

text \<open>
  C6, as stated, fails on a text with a without-hint marker followed by a with-hint marker:
  the leftmost marker is the first one (\<open>first_occurrence\<close> finds it), and decoding returns
  the second.
\<close>

theorem leftmost_marker_counterexample:
  "match_at without_hint two_markers = Some [js ''QUJD''] \<and>
   first_occurrence patterns two_markers = Some \<lparr>markerHint = None, combinedData = js ''QUJD''\<rparr> \<and>
   parseInPlaceEncrypted two_markers = Some \<lparr>markerHint = Some (js ''h''), combinedData = js ''REVG''\<rparr> \<and>
   parseInPlaceEncrypted two_markers \<noteq> first_occurrence patterns two_markers"
proof -
  have m1: "match_at with_hint two_markers = None"
    by (simp add: two_markers_def with_hint_def js_def GLYPH_def
        hint_class_def base64_class_def first_some_numeral first_some_Suc0)
  have f: "first_occurrence patterns two_markers = Some \<lparr>markerHint = None, combinedData = js ''QUJD''\<rparr>"
  proof -
    have "two_markers = 0xD83D # tl two_markers" by (simp add: two_markers_def GLYPH_def)
    then have "first_occurrence patterns two_markers
                 = (case shape_at patterns two_markers of Some r \<Rightarrow> Some r
                    | None \<Rightarrow> first_occurrence patterns (tl two_markers))"
      by (metis first_occurrence.simps(2))
    moreover have "shape_at patterns two_markers = Some \<lparr>markerHint = None, combinedData = js ''QUJD''\<rparr>"
      by (simp add: patterns_def m1 two_markers_first)
    ultimately show ?thesis by simp
  qed
  have "js ''QUJD'' \<noteq> js ''REVG''" by (simp add: js_def)
  then show ?thesis using two_markers_first f two_markers_parse by simp
qed

text \<open>
  C7: for every text in which a marker is found, \<open>decryptInPlace\<close> decodes the data to a
  blob; when the blob is shorter than 48 bytes it returns null and leaves the world as it
  was (no key derivation, no decryption: the log of library calls is unchanged); otherwise it
  derives the key from bytes 0:16 (salt), and decrypts bytes 48:end (ciphertext) with bytes
  16:32 as iv and bytes 32:48 as authentication tag.
\<close>

theorem combined_blob_split:
  assumes "parseInPlaceEncrypted t = Some p"
  shows "(length (base64_decode (combinedData p)) < 48 \<longrightarrow> decryptInPlace lib t pw w = (None, w)) \<and>
         (48 \<le> length (base64_decode (combinedData p)) \<longrightarrow>
            decryptInPlace lib t pw w =
              (map_option utf8_decode
                 (createDecipheriv lib ALGORITHM
                    (pbkdf2Sync lib (utf8_encode pw) (take 16 (base64_decode (combinedData p)))
                       ITERATIONS KEY_LENGTH ''sha512'')
                    (take 16 (drop 16 (base64_decode (combinedData p))))
                    (take 16 (drop 32 (base64_decode (combinedData p))))
                    (drop 48 (base64_decode (combinedData p)))),
               w\<lparr>calls := calls w @ [Pbkdf2Sync, CreateDecipheriv]\<rparr>))"
  unfolding decryptInPlace_eq [OF assms]
  by (simp add: derived_key_def after_decrypt_def ITERATIONS_def KEY_LENGTH_def)

theorem combined_blob_split_witness:
  "parseInPlaceEncrypted (GLYPH @ js ''QUJD'' @ GLYPH)
     = Some \<lparr>markerHint = None, combinedData = js ''QUJD''\<rparr> \<and>
   length (base64_decode (js ''QUJD'')) < 48 \<and>
   decryptInPlace sample_crypto (GLYPH @ js ''QUJD'' @ GLYPH) (js ''pw'') sample_world
     = (None, sample_world) \<and>
   parseInPlaceEncrypted (GLYPH @ base64_encode (replicate 48 0) @ GLYPH)
     = Some \<lparr>markerHint = None, combinedData = base64_encode (replicate 48 0)\<rparr> \<and>
   48 \<le> length (base64_decode (base64_encode (replicate 48 0))) \<and>
   decryptInPlace sample_crypto (GLYPH @ base64_encode (replicate 48 0) @ GLYPH) (js ''pw'') sample_world
     = (map_option utf8_decode
          (createDecipheriv sample_crypto ALGORITHM
             (pbkdf2Sync sample_crypto (utf8_encode (js ''pw'')) (replicate 16 0)
                ITERATIONS KEY_LENGTH ''sha512'')
             (replicate 16 0) (replicate 16 0) []),
        sample_world\<lparr>calls := calls sample_world @ [Pbkdf2Sync, CreateDecipheriv]\<rparr>)"
  using parse_QUJD parse_zero_blob
    combined_blob_split [OF parse_QUJD, of sample_crypto "js ''pw''" sample_world]
    combined_blob_split [OF parse_zero_blob, of sample_crypto "js ''pw''" sample_world]
  by (simp add: b64_QUJD base64_roundtrip)

text \<open>
  C9: for every text, password and mode, \<open>encryptInPlace\<close> with the empty string as hint
  does exactly what it does with no hint; the marker it returns has the without-hint shape
  (prefix, base64 data, suffix), and parsing it yields an absent hint and that data. It does
  return a marker when the library is sound.
\<close>

theorem empty_hint_is_no_hint:
  "encryptInPlace lib text' pw (Some []) showMarker w = encryptInPlace lib text' pw None showMarker w \<and>
   (\<forall>marker w'. encryptInPlace lib text' pw (Some []) showMarker w = (Some marker, w') \<longrightarrow>
      (\<exists>d. marker = (if showMarker then GLYPH else js ''%%'' @ GLYPH) @ d
                      @ (if showMarker then GLYPH else GLYPH @ js ''%%'') \<and>
           d \<noteq> [] \<and> list_all base64_class d \<and>
           parseInPlaceEncrypted marker = Some \<lparr>markerHint = None, combinedData = d\<rparr>)) \<and>
   (library_sound lib \<longrightarrow>
      (\<exists>marker w'. encryptInPlace lib text' pw (Some []) showMarker w = (Some marker, w')))"
proof (intro conjI allI impI)
  assume "library_sound lib"
  from inplace_roundtrip_general [OF this, of "Some []" text' pw showMarker w]
  show "\<exists>marker w'. encryptInPlace lib text' pw (Some []) showMarker w = (Some marker, w')"
    by blast
next
  show "encryptInPlace lib text' pw (Some []) showMarker w = encryptInPlace lib text' pw None showMarker w"
    by (simp add: encryptInPlace_eq marker_text_empty split: option.split)
next
  fix marker w'
  assume a: "encryptInPlace lib text' pw (Some []) showMarker w = (Some marker, w')"
  then obtain encrypted authTag' where
    m: "marker = marker_text (Some []) showMarker
                   (base64_encode (drawn_salt w @ drawn_iv w @ authTag' @ encrypted))"
    unfolding encryptInPlace_eq by (auto split: option.splits)
  define d where "d = base64_encode (drawn_salt w @ drawn_iv w @ authTag' @ encrypted)"
  have ne: "d \<noteq> []" unfolding d_def by (rule base64_encode_nonempty [OF combined_nonempty])
  have cl: "list_all base64_class d" unfolding d_def by (rule base64_encode_class)
  have p: "parseInPlaceEncrypted marker = Some \<lparr>markerHint = None, combinedData = d\<rparr>"
    unfolding m d_def [symmetric] by (rule parse_marker_text_nohint [OF ne cl]) simp
  have s: "marker = (if showMarker then GLYPH else js ''%%'' @ GLYPH) @ d
                      @ (if showMarker then GLYPH else GLYPH @ js ''%%'')"
    unfolding m d_def [symmetric] by (simp add: marker_text_def)
  show "\<exists>d. marker = (if showMarker then GLYPH else js ''%%'' @ GLYPH) @ d
                      @ (if showMarker then GLYPH else GLYPH @ js ''%%'') \<and>
           d \<noteq> [] \<and> list_all base64_class d \<and>
           parseInPlaceEncrypted marker = Some \<lparr>markerHint = None, combinedData = d\<rparr>"
    using s ne cl p by blast
qed

theorem empty_hint_is_no_hint_witness:
  "library_sound sample_crypto \<and>
   encryptInPlace sample_crypto (js ''hello'') (js ''pw'') (Some []) False sample_world
     = (Some (the (fst (encryptInPlace sample_crypto (js ''hello'') (js ''pw'') (Some []) False sample_world))),
        after_encrypt sample_world) \<and>
   (\<exists>d. the (fst (encryptInPlace sample_crypto (js ''hello'') (js ''pw'') (Some []) False sample_world))
          = (js ''%%'' @ GLYPH) @ d @ (GLYPH @ js ''%%'') \<and>
        parseInPlaceEncrypted
          (the (fst (encryptInPlace sample_crypto (js ''hello'') (js ''pw'') (Some []) False sample_world)))
          = Some \<lparr>markerHint = None, combinedData = d\<rparr>)"
proof -
  have e: "encryptInPlace sample_crypto (js ''hello'') (js ''pw'') (Some []) False sample_world
     = (Some (the (fst (encryptInPlace sample_crypto (js ''hello'') (js ''pw'') (Some []) False sample_world))),
        after_encrypt sample_world)"
    unfolding sample_inplace by simp
  have "\<forall>marker w'. encryptInPlace sample_crypto (js ''hello'') (js ''pw'') (Some []) False sample_world
            = (Some marker, w') \<longrightarrow>
      (\<exists>d. marker = (if False then GLYPH else js ''%%'' @ GLYPH) @ d
                      @ (if False then GLYPH else GLYPH @ js ''%%'') \<and>
           d \<noteq> [] \<and> list_all base64_class d \<and>
           parseInPlaceEncrypted marker = Some \<lparr>markerHint = None, combinedData = d\<rparr>)"
    using empty_hint_is_no_hint [of sample_crypto "js ''hello''" "js ''pw''" False sample_world]
    by blast
  from this [rule_format, OF e] obtain d where
    "the (fst (encryptInPlace sample_crypto (js ''hello'') (js ''pw'') (Some []) False sample_world))
       = (js ''%%'' @ GLYPH) @ d @ (GLYPH @ js ''%%'')"
    "parseInPlaceEncrypted
       (the (fst (encryptInPlace sample_crypto (js ''hello'') (js ''pw'') (Some []) False sample_world)))
       = Some \<lparr>markerHint = None, combinedData = d\<rparr>"
    by auto
  with e sample_crypto_sound show ?thesis by blast
qed

section \<open>The claims about the password cache\<close>

text \<open>
  C8 (amended): while caching is active, for every file path, \<open>put\<close> followed immediately
  by \<open>get\<close> returns the stored password and hint (and leaves the cache as \<open>put\<close> left it);
  once the entry's age exceeds the timeout (when the timeout is positive), \<open>get\<close> returns
  empty strings (removing the entry) and \<open>has\<close> returns false; and when the timeout is 0
  the entry never expires: at any time \<open>get\<close> returns it and \<open>has\<close> reports it, both leaving
  the cache unchanged, and the sweep keeps it, until an explicit \<open>clear\<close> or \<open>clearForFile\<close>,
  after which \<open>get\<close> returns empty strings and \<open>has\<close> returns false. While caching is
  inactive, \<open>put\<close> leaves the cache unchanged. The expiry and the timeout-0 behaviour of
  \<open>get\<close>, \<open>has\<close> and the sweep hold for every entry stored under the key of the path, in
  every state.
\<close>

theorem put_get_contract:
  "(active s \<longrightarrow>
      get (put s folderOf now ph filePath) folderOf now filePath
        = (ph, put s folderOf now ph filePath) \<and>
      (timeout s > 0 \<and> now' - now > timeout s * 60 * 1000 \<longrightarrow>
         get (put s folderOf now ph filePath) folderOf now' filePath
           = (\<lparr>password = [], hint = []\<rparr>,
              clearForFile (put s folderOf now ph filePath) folderOf filePath) \<and>
         has (put s folderOf now ph filePath) folderOf now' filePath
           = (False, put s folderOf now ph filePath)) \<and>
      (timeout s = 0 \<longrightarrow>
         get (put s folderOf now ph filePath) folderOf now' filePath
           = (ph, put s folderOf now ph filePath) \<and>
         has (put s folderOf now ph filePath) folderOf now' filePath
           = (True, put s folderOf now ph filePath) \<and>
         removeExpiredEntries (put s folderOf now ph filePath) now'
           = put s folderOf now ph filePath \<and>
         fst (get (snd (clear (put s folderOf now ph filePath))) folderOf now' filePath)
           = \<lparr>password = [], hint = []\<rparr> \<and>
         fst (has (snd (clear (put s folderOf now ph filePath))) folderOf now' filePath) = False \<and>
         fst (get (clearForFile (put s folderOf now ph filePath) folderOf filePath)
                folderOf now' filePath) = \<lparr>password = [], hint = []\<rparr> \<and>
         fst (has (clearForFile (put s folderOf now ph filePath) folderOf filePath)
                folderOf now' filePath) = False)) \<and>
   (\<not> active s \<longrightarrow> put s folderOf now ph filePath = s) \<and>
   (\<forall>entry. fmlookup (cache s) (getCacheKey s folderOf filePath) = Some entry \<longrightarrow>
       (timeout s > 0 \<and> now' - timestamp entry > timeout s * 60 * 1000 \<longrightarrow>
          get s folderOf now' filePath
            = (\<lparr>password = [], hint = []\<rparr>, clearForFile s folderOf filePath) \<and>
          has s folderOf now' filePath = (False, s)) \<and>
       (timeout s = 0 \<longrightarrow>
          get s folderOf now' filePath = (\<lparr>password = password entry, hint = hint entry\<rparr>, s) \<and>
          has s folderOf now' filePath = (True, s) \<and>
          removeExpiredEntries s now' = s))"
proof (intro conjI impI allI)
  assume a: "active s"
  define s' where "s' = put s folderOf now ph filePath"
  define key where "key = getCacheKey s folderOf filePath"
  have k: "getCacheKey s' folderOf filePath = key"
    unfolding s'_def key_def by (simp add: put_def getCacheKey_def)
  have l: "fmlookup (cache s') key = Some \<lparr>password = password ph, hint = hint ph, timestamp = now\<rparr>"
    unfolding s'_def key_def put_active [OF a] by simp
  have t: "timeout s' = timeout s" unfolding s'_def put_active [OF a] by simp
  show "get s' folderOf now filePath = (ph, s')"
    using get_fresh [of s' folderOf filePath _ now] k l by simp
  {
    assume e: "timeout s > 0 \<and> now' - now > timeout s * 60 * 1000"
    show "get s' folderOf now' filePath = (\<lparr>password = [], hint = []\<rparr>, clearForFile s' folderOf filePath)"
      using get_expired [of s' folderOf filePath _ now'] k l e t by simp
    show "has s' folderOf now' filePath = (False, s')"
      unfolding has_eq k l using e t by simp
  }
  {
    assume z: "timeout s = 0"
    show "get s' folderOf now' filePath = (ph, s')"
      using get_fresh [of s' folderOf filePath _ now'] k l z t by simp
    show "has s' folderOf now' filePath = (True, s')"
      unfolding has_eq k l using z t by simp
    show "removeExpiredEntries s' now' = s'"
      using sweep_zero z t by simp
    show "fst (get (snd (clear s')) folderOf now' filePath) = \<lparr>password = [], hint = []\<rparr>"
      by (simp add: get_def clear_def Let_def)
    show "fst (has (snd (clear s')) folderOf now' filePath) = False"
      by (simp add: has_eq clear_def)
    show "fst (get (clearForFile s' folderOf filePath) folderOf now' filePath) = \<lparr>password = [], hint = []\<rparr>"
      by (simp add: get_def clearForFile_def Let_def)
    show "fst (has (clearForFile s' folderOf filePath) folderOf now' filePath) = False"
      by (simp add: has_eq clearForFile_def)
  }
next
  assume "\<not> active s"
  then show "put s folderOf now ph filePath = s" by (rule put_inactive)
next
  fix entry
  assume l: "fmlookup (cache s) (getCacheKey s folderOf filePath) = Some entry"
    and e: "timeout s > 0 \<and> now' - timestamp entry > timeout s * 60 * 1000"
  show "get s folderOf now' filePath = (\<lparr>password = [], hint = []\<rparr>, clearForFile s folderOf filePath)"
    using get_expired [OF l] e by simp
  show "has s folderOf now' filePath = (False, s)"
    unfolding has_eq l using e by simp
next
  fix entry
  assume l: "fmlookup (cache s) (getCacheKey s folderOf filePath) = Some entry"
    and z: "timeout s = 0"
  show "get s folderOf now' filePath = (\<lparr>password = password entry, hint = hint entry\<rparr>, s)"
    using get_fresh [OF l] z by simp
  show "has s folderOf now' filePath = (True, s)"
    unfolding has_eq l using z by simp
  show "removeExpiredEntries s now' = s"
    using z by (rule sweep_zero)
qed

theorem put_get_contract_witness:
  "active new_PasswordService \<and> timeout new_PasswordService > 0 \<and>
   1800006 - 5 > timeout new_PasswordService * 60 * 1000 \<and>
   get (put new_PasswordService no_folder 5 \<lparr>password = js ''pw'', hint = js ''h''\<rparr> (js ''/a/b.md''))
     no_folder 5 (js ''/a/b.md'')
     = (\<lparr>password = js ''pw'', hint = js ''h''\<rparr>,
        put new_PasswordService no_folder 5 \<lparr>password = js ''pw'', hint = js ''h''\<rparr> (js ''/a/b.md'')) \<and>
   fst (get (put new_PasswordService no_folder 5 \<lparr>password = js ''pw'', hint = js ''h''\<rparr> (js ''/a/b.md''))
          no_folder 1800006 (js ''/a/b.md'')) = \<lparr>password = [], hint = []\<rparr> \<and>
   fst (has (put new_PasswordService no_folder 5 \<lparr>password = js ''pw'', hint = js ''h''\<rparr> (js ''/a/b.md''))
          no_folder 1800006 (js ''/a/b.md'')) = False \<and>
   active (new_PasswordService\<lparr>timeout := 0\<rparr>) \<and> timeout (new_PasswordService\<lparr>timeout := 0\<rparr>) = 0 \<and>
   fst (get (put (new_PasswordService\<lparr>timeout := 0\<rparr>) no_folder 5
               \<lparr>password = js ''pw'', hint = js ''h''\<rparr> (js ''/a/b.md''))
          no_folder 1800006 (js ''/a/b.md'')) = \<lparr>password = js ''pw'', hint = js ''h''\<rparr> \<and>
   fst (has (put (new_PasswordService\<lparr>timeout := 0\<rparr>) no_folder 5
               \<lparr>password = js ''pw'', hint = js ''h''\<rparr> (js ''/a/b.md''))
          no_folder 1800006 (js ''/a/b.md'')) = True \<and>
   fst (has (snd (clear (put (new_PasswordService\<lparr>timeout := 0\<rparr>) no_folder 5
               \<lparr>password = js ''pw'', hint = js ''h''\<rparr> (js ''/a/b.md''))))
          no_folder 1800006 (js ''/a/b.md'')) = False \<and>
   \<not> active (new_PasswordService\<lparr>active := False\<rparr>) \<and>
   put (new_PasswordService\<lparr>active := False\<rparr>) no_folder 5
       \<lparr>password = js ''pw'', hint = js ''h''\<rparr> (js ''/a/b.md'')
     = new_PasswordService\<lparr>active := False\<rparr> \<and>
   fmlookup (cache sample_cache) (getCacheKey sample_cache no_folder (js ''/a/b.md''))
     = Some \<lparr>password = js ''pw'', hint = js ''h'', timestamp = 0\<rparr> \<and>
   timeout sample_cache > 0 \<and>
   has sample_cache no_folder 60001 (js ''/a/b.md'') = (False, sample_cache) \<and>
   fst (get sample_cache no_folder 60001 (js ''/a/b.md'')) = \<lparr>password = [], hint = []\<rparr> \<and>
   fmlookup (cache (sample_cache\<lparr>timeout := 0\<rparr>))
       (getCacheKey (sample_cache\<lparr>timeout := 0\<rparr>) no_folder (js ''/a/b.md''))
     = Some \<lparr>password = js ''pw'', hint = js ''h'', timestamp = 0\<rparr> \<and>
   timeout (sample_cache\<lparr>timeout := 0\<rparr>) = 0 \<and>
   get (sample_cache\<lparr>timeout := 0\<rparr>) no_folder 60001 (js ''/a/b.md'')
     = (\<lparr>password = js ''pw'', hint = js ''h''\<rparr>, sample_cache\<lparr>timeout := 0\<rparr>) \<and>
   has (sample_cache\<lparr>timeout := 0\<rparr>) no_folder 60001 (js ''/a/b.md'')
     = (True, sample_cache\<lparr>timeout := 0\<rparr>)"
  using new_active new_zero new_inactive sample_cache_entry sample_cache_zero
    put_get_contract [of sample_cache no_folder 5 "\<lparr>password = js ''pw'', hint = js ''h''\<rparr>"
       "js ''/a/b.md''" 60001]
    put_get_contract [of "sample_cache\<lparr>timeout := 0\<rparr>" no_folder 5
       "\<lparr>password = js ''pw'', hint = js ''h''\<rparr>" "js ''/a/b.md''" 60001]
    put_get_contract [of new_PasswordService no_folder 5 "\<lparr>password = js ''pw'', hint = js ''h''\<rparr>"
       "js ''/a/b.md''" 1800006]
    put_get_contract [of "new_PasswordService\<lparr>timeout := 0\<rparr>" no_folder 5
       "\<lparr>password = js ''pw'', hint = js ''h''\<rparr>" "js ''/a/b.md''" 1800006]
    put_get_contract [of "new_PasswordService\<lparr>active := False\<rparr>" no_folder 5
       "\<lparr>password = js ''pw'', hint = js ''h''\<rparr>" "js ''/a/b.md''" 1800006]
  by simp

text \<open>
  C8, as stated for every cache, fails on an inactive one: \<open>put\<close> returns at once, and the
  following \<open>get\<close> finds nothing.
\<close>

theorem put_get_inactive_counterexample:
  "fst (get (put (new_PasswordService\<lparr>active := False\<rparr>) no_folder 0
               \<lparr>password = js ''pw'', hint = js ''h''\<rparr> (js ''/a/b.md''))
            no_folder 0 (js ''/a/b.md''))
   \<noteq> \<lparr>password = js ''pw'', hint = js ''h''\<rparr>"
  by (simp add: get_def put_def new_PasswordService_def getCacheKey_def js_def)

text \<open>
  C10 (amended): \<open>has\<close> never changes the cache: for every state, time and file path the
  state after \<open>has\<close> is the state before, also when the matching entry is expired; then
  \<open>has\<close> answers false and the entry still counts in \<open>size\<close> and in the number returned by
  \<open>clear\<close>. The expired entry is removed by \<open>get\<close>, by the sweep, by \<open>clear\<close> and by
  \<open>clearForFile\<close>, and also by \<open>init\<close> with \<open>active = false\<close> (which calls \<open>clear\<close>); a call
  after which the entry is no longer stored under its key is one of these, or a \<open>put\<close> to
  the same key of an active cache (which overwrites it).
\<close>

theorem has_frame_and_removers:
  "snd (has s folderOf now filePath) = s \<and>
   (\<forall>entry. fmlookup (cache s) (getCacheKey s folderOf filePath) = Some entry \<and>
       timeout s > 0 \<and> now - timestamp entry > timeout s * 60 * 1000 \<longrightarrow>
       fst (has s folderOf now filePath) = False \<and>
       fmlookup (cache (snd (has s folderOf now filePath))) (getCacheKey s folderOf filePath)
         = Some entry \<and>
       size_cache (snd (has s folderOf now filePath)) = size_cache s \<and>
       0 < size_cache s \<and>
       fst (clear (snd (has s folderOf now filePath))) = size_cache s \<and>
       fmlookup (cache (snd (get s folderOf now filePath))) (getCacheKey s folderOf filePath) = None \<and>
       fmlookup (cache (removeExpiredEntries s now)) (getCacheKey s folderOf filePath) = None \<and>
       cache (snd (clear s)) = fmempty \<and>
       fmlookup (cache (clearForFile s folderOf filePath)) (getCacheKey s folderOf filePath) = None \<and>
       (\<forall>t l. cache (init s False t l) = fmempty) \<and>
       (\<forall>c now'. fmlookup (cache (after folderOf now' c s)) (getCacheKey s folderOf filePath)
                    \<noteq> Some entry \<longrightarrow>
            c = RemoveExpiredEntries \<or> c = Clear \<or>
            (\<exists>p. c = Get p \<and> getCacheKey s folderOf p = getCacheKey s folderOf filePath) \<or>
            (\<exists>p. c = ClearForFile p \<and> getCacheKey s folderOf p = getCacheKey s folderOf filePath) \<or>
            (\<exists>t l. c = Init False t l) \<or>
            (\<exists>ph p. c = Put ph p \<and> active s \<and>
                     getCacheKey s folderOf p = getCacheKey s folderOf filePath)))"
proof (intro conjI allI impI)
  show frame: "snd (has s folderOf now filePath) = s" by (simp add: has_eq)
  fix entry
  assume h: "fmlookup (cache s) (getCacheKey s folderOf filePath) = Some entry \<and>
       timeout s > 0 \<and> now - timestamp entry > timeout s * 60 * 1000"
  then have l: "fmlookup (cache s) (getCacheKey s folderOf filePath) = Some entry"
    and t: "timeout s > 0" and e: "now - timestamp entry > timeout s * 60 * 1000" by simp_all
  show "fst (has s folderOf now filePath) = False" unfolding has_eq l using t e by simp
  show "fmlookup (cache (snd (has s folderOf now filePath))) (getCacheKey s folderOf filePath) = Some entry"
    unfolding frame by (rule l)
  show "size_cache (snd (has s folderOf now filePath)) = size_cache s" unfolding frame ..
  show "0 < size_cache s" by (rule size_pos [OF l])
  show "fst (clear (snd (has s folderOf now filePath))) = size_cache s"
    unfolding frame by (simp add: clear_def)
  show "fmlookup (cache (snd (get s folderOf now filePath))) (getCacheKey s folderOf filePath) = None"
    unfolding get_expired [OF l t e] by (simp add: clearForFile_def)
  show "fmlookup (cache (removeExpiredEntries s now)) (getCacheKey s folderOf filePath) = None"
    using sweep_lookup [of s now "getCacheKey s folderOf filePath"] t e l by simp
  show "cache (snd (clear s)) = fmempty" by (simp add: clear_def)
  show "fmlookup (cache (clearForFile s folderOf filePath)) (getCacheKey s folderOf filePath) = None"
    by (simp add: clearForFile_def)
  show "cache (init s False t' l') = fmempty" for t' l'
    by (simp add: init_def clear_def)
next
  fix entry c now'
  assume h: "fmlookup (cache s) (getCacheKey s folderOf filePath) = Some entry \<and>
       timeout s > 0 \<and> now - timestamp entry > timeout s * 60 * 1000"
    and r: "fmlookup (cache (after folderOf now' c s)) (getCacheKey s folderOf filePath) \<noteq> Some entry"
  from h have l: "fmlookup (cache s) (getCacheKey s folderOf filePath) = Some entry" by simp
  show "c = RemoveExpiredEntries \<or> c = Clear \<or>
            (\<exists>p. c = Get p \<and> getCacheKey s folderOf p = getCacheKey s folderOf filePath) \<or>
            (\<exists>p. c = ClearForFile p \<and> getCacheKey s folderOf p = getCacheKey s folderOf filePath) \<or>
            (\<exists>t l. c = Init False t l) \<or>
            (\<exists>ph p. c = Put ph p \<and> active s \<and>
                     getCacheKey s folderOf p = getCacheKey s folderOf filePath)"
  proof (cases c)
    case (Init a t' l')
    with r l show ?thesis by (cases a) (simp_all add: init_def)
  next
    case (Put ph p)
    with r l show ?thesis by (auto simp: put_def split: if_splits)
  next
    case (Get p)
    with r l show ?thesis by (auto simp: get_def Let_def split: option.splits if_splits)
  next
    case (Has p)
    with r l show ?thesis by (simp add: has_eq)
  next
    case (ClearForFile p)
    with r l show ?thesis by (auto simp: clearForFile_def split: if_splits)
  qed (use r l in simp_all)
qed

theorem has_frame_and_removers_witness:
  "fmlookup (cache sample_cache) (getCacheKey sample_cache no_folder (js ''/a/b.md''))
     = Some \<lparr>password = js ''pw'', hint = js ''h'', timestamp = 0\<rparr> \<and>
   timeout sample_cache > 0 \<and>
   60001 - timestamp \<lparr>password = js ''pw'', hint = js ''h'', timestamp = 0\<rparr>
     > timeout sample_cache * 60 * 1000 \<and>
   snd (has sample_cache no_folder 60001 (js ''/a/b.md'')) = sample_cache \<and>
   fst (has sample_cache no_folder 60001 (js ''/a/b.md'')) = False \<and>
   0 < size_cache sample_cache \<and>
   fmlookup (cache (snd (get sample_cache no_folder 60001 (js ''/a/b.md''))))
     (getCacheKey sample_cache no_folder (js ''/a/b.md'')) = None \<and>
   fmlookup (cache (removeExpiredEntries sample_cache 60001))
     (getCacheKey sample_cache no_folder (js ''/a/b.md'')) = None \<and>
   fmlookup (cache (clearForFile sample_cache no_folder (js ''/a/b.md'')))
     (getCacheKey sample_cache no_folder (js ''/a/b.md'')) = None \<and>
   fmlookup (cache (after no_folder 60001 (Has (js ''/other.md'')) sample_cache))
      (getCacheKey sample_cache no_folder (js ''/a/b.md''))
      = Some \<lparr>password = js ''pw'', hint = js ''h'', timestamp = 0\<rparr> \<and>
   fmlookup (cache (after no_folder 60001 (Init True 5 File) sample_cache))
      (getCacheKey sample_cache no_folder (js ''/a/b.md''))
      = Some \<lparr>password = js ''pw'', hint = js ''h'', timestamp = 0\<rparr>"
proof -
  note t = has_frame_and_removers [of sample_cache no_folder 60001 "js ''/a/b.md''"]
  have h: "fmlookup (cache sample_cache) (getCacheKey sample_cache no_folder (js ''/a/b.md''))
             = Some \<lparr>password = js ''pw'', hint = js ''h'', timestamp = 0\<rparr> \<and>
           timeout sample_cache > 0 \<and>
           60001 - timestamp \<lparr>password = js ''pw'', hint = js ''h'', timestamp = 0\<rparr>
             > timeout sample_cache * 60 * 1000"
    using sample_cache_entry by simp
  note c = t [THEN conjunct2, rule_format, OF h]
  have only: "fmlookup (cache (after no_folder 60001 call sample_cache))
                (getCacheKey sample_cache no_folder (js ''/a/b.md''))
              = Some \<lparr>password = js ''pw'', hint = js ''h'', timestamp = 0\<rparr>"
    if "call = Has (js ''/other.md'') \<or> call = Init True 5 File" for call
    using c [THEN conjunct2, THEN conjunct2, THEN conjunct2, THEN conjunct2, THEN conjunct2,
             THEN conjunct2, THEN conjunct2, THEN conjunct2, THEN conjunct2, THEN conjunct2,
             rule_format, of 60001 call] that
    by auto
  note o1 = only [of "Has (js ''/other.md'')", simplified]
  note o2 = only [of "Init True 5 File", simplified]
  have f: "snd (has sample_cache no_folder 60001 (js ''/a/b.md'')) = sample_cache"
    using t by (rule conjunct1)
  show ?thesis using h f c o1 o2 by simp
qed

text \<open>
  C10, as stated, fails in its list of what removes an expired entry: \<open>init\<close> with
  \<open>active = false\<close> removes it too.
\<close>

theorem init_removes_expired_counterexample:
  "fmlookup (cache sample_cache) (js ''workspace'')
     = Some \<lparr>password = js ''pw'', hint = js ''h'', timestamp = 0\<rparr> \<and>
   timeout sample_cache = 1 \<and>
   fmlookup (cache (init sample_cache False 1 Workspace)) (js ''workspace'') = None"
  by (simp add: sample_cache_def new_PasswordService_def init_def clear_def)

end
